theory Spec2Isabelle
  imports Main
begin

section \<open>Constants and data model\<close>

text \<open>
  A board is the Python tuple of cell values; the cells are Python integers, so they
  are modelled as unbounded \<open>int\<close>.  The only exception the solver core can raise is
  the \<open>IndexError\<close> of reading a tuple beyond its end.
\<close>

datatype error = IndexError

type_synonym board = "int list"

type_synonym cache = "int \<rightharpoonup> int"

definition INFINITY :: int where
  "INFINITY = 3 ^ 12"

definition ILLEGAL :: int where
  "ILLEGAL = 2"

definition UNKNOWN :: int where
  "UNKNOWN = 0"

definition PREV :: int where
  "PREV = - 1"

definition NEXT :: int where
  "NEXT = 1"

text \<open>\<open>board[i]\<close> for a non-negative constant index \<open>i\<close>.\<close>

definition item :: "'a list \<Rightarrow> nat \<Rightarrow> error + 'a" where
  "item xs i = (if i < length xs then Inr (xs ! i) else Inl IndexError)"

section \<open>The canonical fingerprint: \<open>game_hash\<close>\<close>

definition INDICES :: "nat list list" where
  "INDICES = [[0, 1, 2, 3, 4, 5, 6, 7, 8, 9, 10, 11], [11, 10, 9, 8, 7, 6, 5, 4, 3, 2, 1, 0],
              [8, 9, 10, 11, 4, 5, 6, 7, 0, 1, 2, 3], [3, 2, 1, 0, 7, 6, 5, 4, 11, 10, 9, 8]]"

text \<open>\<open>sum(board[i] << (e*2) for e, i in enumerate(I))\<close>\<close>

definition packed :: "board \<Rightarrow> nat list \<Rightarrow> int" where
  "packed board I = sum_list (map (\<lambda>(e, i). push_bit (e * 2) (board ! i)) (enumerate 0 I))"

text \<open>
  Every table of \<open>INDICES\<close> reads all of the cells 0..11 and the first table is read
  first, so the call raises \<open>IndexError\<close> exactly when the board has fewer than 12 cells.
\<close>

definition game_hash :: "board \<Rightarrow> error + int" where
  "game_hash board =
     (if length board < 12 then Inl IndexError
      else Inr (min_list (map (packed board) INDICES)))"

section \<open>The move generator: \<open>game_moves\<close>\<close>

definition LINES :: "(nat \<times> nat \<times> nat) list" where
  "LINES = [(0, 1, 2), (1, 2, 3), (4, 5, 6), (5, 6, 7), (8, 9, 10), (9, 10, 11), (0, 4, 8),
            (1, 5, 9), (2, 6, 10), (3, 7, 11), (0, 5, 10), (1, 6, 11), (2, 5, 8), (3, 6, 9)]"

text \<open>
  The chained comparison \<open>0 < board[x] == board[y] == board[z]\<close> reads its operands from
  left to right and stops at the first comparison that fails.
\<close>

fun line_won :: "board \<Rightarrow> nat \<times> nat \<times> nat \<Rightarrow> error + bool" where
  "line_won board (x, y, z) =
     (case item board x of
        Inl e \<Rightarrow> Inl e
      | Inr bx \<Rightarrow>
          if \<not> 0 < bx then Inr False
          else (case item board y of
                  Inl e \<Rightarrow> Inl e
                | Inr by \<Rightarrow>
                    if bx \<noteq> by then Inr False
                    else (case item board z of
                            Inl e \<Rightarrow> Inl e
                          | Inr bz \<Rightarrow> Inr (by = bz))))"

text \<open>\<open>any(... for x, y, z in LINES)\<close>: stops at the first line that is won.\<close>

fun any_line :: "board \<Rightarrow> (nat \<times> nat \<times> nat) list \<Rightarrow> error + bool" where
  "any_line board [] = Inr False"
| "any_line board (l # ls) =
     (case line_won board l of
        Inl e \<Rightarrow> Inl e
      | Inr True \<Rightarrow> Inr True
      | Inr False \<Rightarrow> any_line board ls)"

text \<open>\<open>tuple(b+1 if i==j else b for j, b in enumerate(board))\<close>\<close>

definition successor :: "board \<Rightarrow> nat \<Rightarrow> board" where
  "successor board i = map (\<lambda>(j, b). if i = j then b + 1 else b) (enumerate 0 board)"

text \<open>The loop \<open>for i in range(12): if board[i] < 3: moves.append(...)\<close>.\<close>

fun moves_loop :: "board \<Rightarrow> nat list \<Rightarrow> error + board list" where
  "moves_loop board [] = Inr []"
| "moves_loop board (i # is) =
     (case item board i of
        Inl e \<Rightarrow> Inl e
      | Inr b \<Rightarrow>
          (case moves_loop board is of
             Inl e \<Rightarrow> Inl e
           | Inr ms \<Rightarrow> Inr (if b < 3 then successor board i # ms else ms)))"

definition game_moves :: "board \<Rightarrow> error + board list" where
  "game_moves board =
     (case any_line board LINES of
        Inl e \<Rightarrow> Inl e
      | Inr True \<Rightarrow> Inr []
      | Inr False \<Rightarrow> moves_loop board [0..<12])"

text \<open>
  The cell-value headroom of a board: how many increments its first 12 cells can still
  take.  Every move lowers it by one; it is the measure of the solver's recursion.
\<close>

definition room :: "board \<Rightarrow> nat" where
  "room board = sum_list (map (\<lambda>i. nat (3 - board ! i)) [0..<12])"

text \<open>The terminal test on a board of at least 12 cells, where no read can fail.\<close>

definition won :: "board \<Rightarrow> nat \<times> nat \<times> nat \<Rightarrow> bool" where
  "won B = (\<lambda>(x, y, z). 0 < B ! x \<and> B ! x = B ! y \<and> B ! y = B ! z)"

definition game_over :: "board \<Rightarrow> bool" where
  "game_over B = list_ex (won B) LINES"

lemma successor_eq: "successor b i = (if i < length b then b[i := b ! i + 1] else b)"
  by (auto simp: successor_def intro!: nth_equalityI simp: nth_enumerate_eq)

lemma line_won_eq:
  "x < length b \<Longrightarrow> y < length b \<Longrightarrow> z < length b
   \<Longrightarrow> line_won b (x, y, z) = Inr (won b (x, y, z))"
  by (auto simp: item_def won_def)

lemma any_line_eq:
  "list_all (\<lambda>(x, y, z). x < length b \<and> y < length b \<and> z < length b) ls
   \<Longrightarrow> any_line b ls = Inr (list_ex (won b) ls)"
  by (induction ls)
     (auto simp: line_won_eq simp del: line_won.simps split: bool.splits)

lemma moves_loop_eq:
  "list_all (\<lambda>i. i < length b) is
   \<Longrightarrow> moves_loop b is = Inr (map (successor b) (filter (\<lambda>i. b ! i < 3) is))"
  by (induction "is") (auto simp: item_def)

lemma moves_loop_short:
  "i \<in> set is \<Longrightarrow> length b \<le> i \<Longrightarrow> moves_loop b is = Inl IndexError"
  by (induction "is") (auto simp: item_def split: sum.splits)

lemma game_moves_eq:
  assumes "12 \<le> length b"
  shows "game_moves b =
           Inr (if game_over b then []
                else map (\<lambda>i. b[i := b ! i + 1]) (filter (\<lambda>i. b ! i < 3) [0..<12]))"
proof -
  have l: "list_all (\<lambda>(x, y, z). x < length b \<and> y < length b \<and> z < length b) LINES"
    using assms by (auto simp: LINES_def)
  have m: "list_all (\<lambda>i. (i::nat) < length b) [0..<12]"
    using assms by (auto simp: list_all_iff)
  have s: "map (successor b) (filter (\<lambda>i. b ! i < 3) [0..<12])
         = map (\<lambda>i. b[i := b ! i + 1]) (filter (\<lambda>i. b ! i < 3) [0..<12])"
    using assms by (intro map_cong) (auto simp: successor_eq)
  show ?thesis
    unfolding game_moves_def any_line_eq[OF l] moves_loop_eq[OF m] s game_over_def
    by simp
qed

lemma game_moves_short:
  assumes "length b < 12" "game_moves b = Inr ms"
  shows "ms = []"
proof -
  have "moves_loop b [0..<12] = Inl IndexError"
    using assms(1) by (intro moves_loop_short[of 11]) auto
  with assms(2) show ?thesis
    by (auto simp: game_moves_def split: sum.splits bool.splits)
qed

lemma room_sum: "room b = (\<Sum>j = 0..<12. nat (3 - b ! j))"
  by (simp add: room_def interv_sum_list_conv_sum_set_nat)

lemma room_successor:
  assumes "i < 12" "12 \<le> length b" "b ! i < 3"
  shows "room (b[i := b ! i + 1]) < room b"
  unfolding room_sum
proof (rule sum_strict_mono_ex1)
  show "finite {0..<12::nat}" by simp
  show "\<forall>j\<in>{0..<12}. nat (3 - (b[i := b ! i + 1]) ! j) \<le> nat (3 - b ! j)"
    using assms by (auto simp: nth_list_update)
  show "\<exists>j\<in>{0..<12}. nat (3 - (b[i := b ! i + 1]) ! j) < nat (3 - b ! j)"
    using assms by (intro bexI[of _ i]) auto
qed

lemma game_moves_room:
  assumes "game_moves b = Inr ms" "m \<in> set ms"
  shows "room m < room b"
proof (cases "12 \<le> length b")
  case True
  from assms show ?thesis
    unfolding game_moves_eq[OF True]
    by (auto split: if_splits intro: room_successor[OF _ True])
next
  case False
  with assms game_moves_short[of b ms] show ?thesis by simp
qed

section \<open>The negamax solver: \<open>game_value\<close>\<close>

text \<open>
  The cache is the Python dictionary, passed in and returned: the call mutates it in
  place.  The loop over the moves is \<open>value_loop\<close>; its first argument is the recursive
  call \<open>game_value(move, depth-1, cache)\<close>, its second the running \<open>value\<close>.
\<close>

fun value_loop :: "(board \<Rightarrow> cache \<Rightarrow> (error + int) \<times> cache) \<Rightarrow> int \<Rightarrow> board list \<Rightarrow> cache
                   \<Rightarrow> (error + int) \<times> cache" where
  "value_loop rec val [] cache = (Inr val, cache)"
| "value_loop rec val (m # ms) cache =
     (case rec m cache of
        (Inl e, cache') \<Rightarrow> (Inl e, cache')
      | (Inr v, cache') \<Rightarrow>
          (let val' = max val (- v)
           in if val' = NEXT then (Inr val', cache') else value_loop rec val' ms cache'))"

lemma value_loop_cong [fundef_cong]:
  "ms = ms' \<Longrightarrow> val = val' \<Longrightarrow> c = c' \<Longrightarrow> (\<And>m k. m \<in> set ms' \<Longrightarrow> f m k = g m k)
   \<Longrightarrow> value_loop f val ms c = value_loop g val' ms' c'"
proof (induction ms' arbitrary: ms val val' c c')
  case Nil
  then show ?case by simp
next
  case (Cons a ms')
  then show ?case by (auto split: prod.splits sum.splits simp: Let_def)
qed

function game_value :: "board \<Rightarrow> int \<Rightarrow> cache \<Rightarrow> (error + int) \<times> cache" where
  "game_value board depth cache =
     (case game_hash board of
        Inl e \<Rightarrow> (Inl e, cache)
      | Inr h \<Rightarrow>
          (case cache h of
             Some v \<Rightarrow> (Inr v, cache)
           | None \<Rightarrow>
               (case game_moves board of
                  Inl e \<Rightarrow> (Inl e, cache)
                | Inr moves \<Rightarrow>
                    (case (if moves = [] then (Inr PREV, cache)
                           else if depth = 0 then (Inr UNKNOWN, cache)
                           else value_loop (\<lambda>move. game_value move (depth - 1)) PREV moves cache) of
                       (Inl e, cache') \<Rightarrow> (Inl e, cache')
                     | (Inr val, cache') \<Rightarrow>
                         (Inr val, if val \<noteq> UNKNOWN then cache'(h \<mapsto> val) else cache')))))"
  by pat_completeness auto
termination
  by (relation "measure (\<lambda>(board, depth, cache). room board)") (auto intro: game_moves_room)

declare game_value.simps [simp del]

section \<open>The move selector: the classification loop of \<open>move\<close>\<close>

text \<open>
  The first part of \<open>move(board, AI)\<close>: the loop that classifies the legal moves.  The
  assistant \<open>AI\<close> is the Python dictionary that holds the cache (its integer keys) and the
  entries \<open>"player"\<close> and \<open>"depth"\<close>; \<open>an_W\<close>, \<open>an_U\<close>, \<open>an_L\<close>, \<open>an_moves\<close> and \<open>an_values\<close> are
  the local variables \<open>W\<close>, \<open>U\<close>, \<open>L\<close>, \<open>moves\<close> and \<open>values\<close>.  Printing the board and choosing
  the move (at random, or read from the terminal) are not modelled.
\<close>

definition NAME :: "string list" where
  "NAME = [[letter, number]. letter \<leftarrow> ''ABCD'', number \<leftarrow> ''1234'']"

record assistant =
  ai_player :: string
  ai_depth :: int
  ai_cache :: cache

record analysis =
  an_W :: "string list"
  an_U :: "string list"
  an_L :: "string list"
  an_moves :: "string \<rightharpoonup> board option"
  an_values :: "int list"
  an_AI :: assistant

text \<open>\<open>[i for i in range(12) if board[i] != move[i]][0]\<close>\<close>

definition changed_cell :: "board \<Rightarrow> board \<Rightarrow> error + nat" where
  "changed_cell board move =
     (if length board < 12 \<or> length move < 12 then Inl IndexError
      else (case filter (\<lambda>i. board ! i \<noteq> move ! i) [0..<12] of
              [] \<Rightarrow> Inl IndexError
            | cell # _ \<Rightarrow> Inr cell))"

definition classify_step :: "board \<Rightarrow> board \<Rightarrow> analysis \<Rightarrow> error + analysis" where
  "classify_step board move st =
     (case changed_cell board move of
        Inl e \<Rightarrow> Inl e
      | Inr cell \<Rightarrow>
          (let name = NAME ! cell
           in case game_value move (ai_depth (an_AI st)) (ai_cache (an_AI st)) of
                (Inl e, cache') \<Rightarrow> Inl e
              | (Inr v, cache') \<Rightarrow>
                  Inr (st\<lparr>an_moves := (an_moves st)(name \<mapsto> Some move),
                          an_values := (an_values st)[cell := v],
                          an_AI := (an_AI st)\<lparr>ai_cache := cache'\<rparr>,
                          an_W := if v = PREV then an_W st @ [name] else an_W st,
                          an_L := if v \<noteq> PREV \<and> v = NEXT then an_L st @ [name] else an_L st,
                          an_U := if v \<noteq> PREV \<and> v \<noteq> NEXT then an_U st @ [name] else an_U st\<rparr>)))"

fun classify_loop :: "board \<Rightarrow> board list \<Rightarrow> analysis \<Rightarrow> error + analysis" where
  "classify_loop board [] st = Inr st"
| "classify_loop board (move # rest) st =
     (case classify_step board move st of
        Inl e \<Rightarrow> Inl e
      | Inr st' \<Rightarrow> classify_loop board rest st')"

definition analysis_start :: "assistant \<Rightarrow> analysis" where
  "analysis_start AI =
     \<lparr>an_W = [], an_U = [], an_L = [], an_moves = [''X'' \<mapsto> None],
      an_values = replicate 12 ILLEGAL, an_AI = AI\<rparr>"

definition move_classify :: "board \<Rightarrow> assistant \<Rightarrow> error + analysis" where
  "move_classify board AI =
     (case game_moves board of
        Inl e \<Rightarrow> Inl e
      | Inr ms \<Rightarrow> classify_loop board ms (analysis_start AI))"

section \<open>Notions of the specification\<close>

text \<open>
  The boards of the data model: exactly 12 cells, each in \<open>{0, 1, 2, 3}\<close>.
\<close>

definition wf_board :: "board \<Rightarrow> bool" where
  "wf_board B = (length B = 12 \<and> list_all (\<lambda>v. 0 \<le> v \<and> v \<le> 3) B)"

text \<open>The board \<open>T(B)\<close> read through an index table: cell \<open>e\<close> of it is cell \<open>I[e]\<close> of \<open>B\<close>.\<close>

definition permute :: "nat list \<Rightarrow> board \<Rightarrow> board" where
  "permute I B = map (\<lambda>i. B ! i) I"

text \<open>The four tables of \<open>INDICES\<close>, by name.\<close>

definition identity_table :: "nat list" where
  "identity_table = [0, 1, 2, 3, 4, 5, 6, 7, 8, 9, 10, 11]"

definition rotation_table :: "nat list" where
  "rotation_table = [11, 10, 9, 8, 7, 6, 5, 4, 3, 2, 1, 0]"

definition row_flip_table :: "nat list" where
  "row_flip_table = [8, 9, 10, 11, 4, 5, 6, 7, 0, 1, 2, 3]"

definition column_flip_table :: "nat list" where
  "column_flip_table = [3, 2, 1, 0, 7, 6, 5, 4, 11, 10, 9, 8]"

lemmas tables = identity_table_def rotation_table_def row_flip_table_def column_flip_table_def

text \<open>A list of cells read as a base-4 numeral, least significant digit first.\<close>

definition digits :: "int list \<Rightarrow> int" where
  "digits xs = sum_list (map (\<lambda>(e, x). x * 4 ^ e) (enumerate 0 xs))"

text \<open>\<open>B2\<close> is the image of \<open>B1\<close> under one of the four tables.\<close>

definition symmetric :: "board \<Rightarrow> board \<Rightarrow> bool" where
  "symmetric B1 B2 = list_ex (\<lambda>I. B2 = permute I B1) INDICES"

text \<open>A cache whose entries are all \<open>PREV\<close> or \<open>NEXT\<close>: it holds no \<open>UNKNOWN\<close> and nothing else.\<close>

definition resolved :: "cache \<Rightarrow> bool" where
  "resolved c = (ran c \<subseteq> {PREV, NEXT})"

text \<open>
  The last two lines of \<open>game_value\<close>, \<open>if value != UNKNOWN: cache[h] = value\<close> and
  \<open>return value\<close>, by name, so that lemmas can refer to them.
\<close>

definition remember :: "int \<Rightarrow> (error + int) \<times> cache \<Rightarrow> (error + int) \<times> cache" where
  "remember h rc =
     (case rc of
        (Inl e, c') \<Rightarrow> (Inl e, c')
      | (Inr val, c') \<Rightarrow> (Inr val, if val \<noteq> UNKNOWN then c'(h \<mapsto> val) else c'))"

text \<open>The three game values.\<close>

definition game_values :: "int set" where
  "game_values = {PREV, NEXT, UNKNOWN}"

text \<open>A result that is a value and is not \<open>UNKNOWN\<close>.\<close>

definition decided :: "(error + int) \<Rightarrow> bool" where
  "decided r = (r = Inr PREV \<or> r = Inr NEXT)"

text \<open>
  The solver with its recursion depth bounded: \<open>game_value_bounded n\<close> runs the code of
  \<open>game_value\<close>, but a call nested more than \<open>n\<close> deep below the first one does not return
  (\<open>None\<close>).  \<open>game_value_call\<close> is the body of \<open>game_value\<close> with the recursive call as a
  parameter, \<open>value_loop_bounded\<close> its loop.
\<close>

fun value_loop_bounded ::
  "(board \<Rightarrow> cache \<Rightarrow> ((error + int) \<times> cache) option) \<Rightarrow> int \<Rightarrow> board list \<Rightarrow> cache
   \<Rightarrow> ((error + int) \<times> cache) option" where
  "value_loop_bounded rec val [] cache = Some (Inr val, cache)"
| "value_loop_bounded rec val (m # ms) cache =
     (case rec m cache of
        None \<Rightarrow> None
      | Some (Inl e, cache') \<Rightarrow> Some (Inl e, cache')
      | Some (Inr v, cache') \<Rightarrow>
          (let val' = max val (- v)
           in if val' = NEXT then Some (Inr val', cache')
              else value_loop_bounded rec val' ms cache'))"

definition game_value_call ::
  "(board \<Rightarrow> cache \<Rightarrow> ((error + int) \<times> cache) option) \<Rightarrow> board \<Rightarrow> int \<Rightarrow> cache
   \<Rightarrow> ((error + int) \<times> cache) option" where
  "game_value_call rec board depth cache =
     (case game_hash board of
        Inl e \<Rightarrow> Some (Inl e, cache)
      | Inr h \<Rightarrow>
          (case cache h of
             Some v \<Rightarrow> Some (Inr v, cache)
           | None \<Rightarrow>
               (case game_moves board of
                  Inl e \<Rightarrow> Some (Inl e, cache)
                | Inr moves \<Rightarrow>
                    (case (if moves = [] then Some (Inr PREV, cache)
                           else if depth = 0 then Some (Inr UNKNOWN, cache)
                           else value_loop_bounded rec PREV moves cache) of
                       None \<Rightarrow> None
                     | Some (Inl e, cache') \<Rightarrow> Some (Inl e, cache')
                     | Some (Inr val, cache') \<Rightarrow>
                         Some (Inr val, if val \<noteq> UNKNOWN then cache'(h \<mapsto> val) else cache')))))"

primrec game_value_bounded :: "nat \<Rightarrow> board \<Rightarrow> int \<Rightarrow> cache \<Rightarrow> ((error + int) \<times> cache) option" where
  "game_value_bounded 0 board depth cache =
     game_value_call (\<lambda>move cache. None) board depth cache"
| "game_value_bounded (Suc n) board depth cache =
     game_value_call (\<lambda>move. game_value_bounded n move (depth - 1)) board depth cache"

text \<open>
  The game-theoretic value of a position, with no depth budget and no cache: \<open>NEXT\<close> when
  some move leads to a position of value \<open>PREV\<close>, and \<open>PREV\<close> otherwise (the game is over, or
  every move leads to a position of value \<open>NEXT\<close>).
\<close>

function negamax :: "board \<Rightarrow> int" where
  "negamax b =
     (case game_moves b of
        Inl e \<Rightarrow> PREV
      | Inr ms \<Rightarrow> if list_ex (\<lambda>m. negamax m = PREV) ms then NEXT else PREV)"
  by pat_completeness auto
termination
  by (relation "measure room") (auto intro: game_moves_room)

declare negamax.simps [simp del]

text \<open>
  A line read through an index table, written with its smaller end first: the line of
  \<open>B\<close> that a line of \<open>permute I B\<close> is.
\<close>

fun through :: "nat list \<Rightarrow> nat \<times> nat \<times> nat \<Rightarrow> nat \<times> nat \<times> nat" where
  "through I (x, y, z) = (if I ! x \<le> I ! z then (I ! x, I ! y, I ! z) else (I ! z, I ! y, I ! x))"

text \<open>
  A sound cache: each entry is the game-theoretic value of every board of the data model
  that has its fingerprint.  A sound answer: a value, which is the game-theoretic value
  of the board unless it is \<open>UNKNOWN\<close>, and a sound cache.
\<close>

definition sound :: "cache \<Rightarrow> bool" where
  "sound c = (\<forall>b h v. wf_board b \<longrightarrow> game_hash b = Inr h \<longrightarrow> c h = Some v \<longrightarrow> v = negamax b)"

definition answer :: "board \<Rightarrow> (error + int) \<times> cache \<Rightarrow> bool" where
  "answer b rc = (\<exists>v. fst rc = Inr v \<and> v \<in> game_values \<and> (v \<noteq> UNKNOWN \<longrightarrow> v = negamax b)
                    \<and> sound (snd rc))"

text \<open>
  The caches that calls of \<open>game_value\<close> at the budget \<open>d\<close>, on boards of the data model,
  build from the empty cache.
\<close>

inductive populated :: "int \<Rightarrow> cache \<Rightarrow> bool" for d :: int where
  fresh: "populated d Map.empty"
| call: "populated d c \<Longrightarrow> wf_board b \<Longrightarrow> populated d (snd (game_value b d c))"

text \<open>\<open>tuple(0 for _ in range(12))\<close>\<close>

definition empty_board :: board where
  "empty_board = replicate 12 0"

text \<open>A cache of game values: every entry is \<open>PREV\<close>, \<open>NEXT\<close> or \<open>UNKNOWN\<close>.\<close>

definition holds_game_values :: "cache \<Rightarrow> bool" where
  "holds_game_values c = (ran c \<subseteq> game_values)"

text \<open>The names of the cells \<open>js\<close>.\<close>

definition names :: "nat list \<Rightarrow> string set" where
  "names js = (\<lambda>i. NAME ! i) ` set js"

text \<open>A sequence of positions, each reached from the one before by a legal move.\<close>

fun legal_play :: "board \<Rightarrow> board list \<Rightarrow> bool" where
  "legal_play b [] = True"
| "legal_play b (m # ms) =
     (case game_moves b of
        Inl e \<Rightarrow> False
      | Inr xs \<Rightarrow> m \<in> set xs \<and> legal_play m ms)"

text \<open>
  The geometry of the 3 x 4 board: cell \<open>(r, c)\<close> has the index \<open>4 * r + c\<close>.  A row has two
  windows of three cells, a column is one, and four diagonals pass through the three
  rows, two in each direction.
\<close>

definition cell_index :: "nat \<Rightarrow> nat \<Rightarrow> nat" where
  "cell_index r c = 4 * r + c"

definition row_windows :: "(nat \<times> nat \<times> nat) list" where
  "row_windows = [(cell_index r c, cell_index r (c + 1), cell_index r (c + 2)). r \<leftarrow> [0..<3], c \<leftarrow> [0..<2]]"

definition column_lines :: "(nat \<times> nat \<times> nat) list" where
  "column_lines = [(cell_index 0 c, cell_index 1 c, cell_index 2 c). c \<leftarrow> [0..<4]]"

definition diagonal_lines :: "(nat \<times> nat \<times> nat) list" where
  "diagonal_lines = [(cell_index 0 c, cell_index 1 (c + 1), cell_index 2 (c + 2)). c \<leftarrow> [0..<2]]
                  @ [(cell_index 0 (c + 2), cell_index 1 (c + 1), cell_index 2 c). c \<leftarrow> [0..<2]]"

text \<open>Triples within one row, within one column, and stepping down one row and one column
  to the right, or to the left, at a time.\<close>

definition in_row :: "nat \<times> nat \<times> nat \<Rightarrow> bool" where
  "in_row = (\<lambda>(x, y, z). x div 4 = y div 4 \<and> y div 4 = z div 4)"

definition in_column :: "nat \<times> nat \<times> nat \<Rightarrow> bool" where
  "in_column = (\<lambda>(x, y, z). x mod 4 = y mod 4 \<and> y mod 4 = z mod 4)"

definition on_diagonal :: "nat \<times> nat \<times> nat \<Rightarrow> bool" where
  "on_diagonal = (\<lambda>(x, y, z). y div 4 = x div 4 + 1 \<and> z div 4 = y div 4 + 1
                    \<and> (y mod 4 = x mod 4 + 1 \<and> z mod 4 = y mod 4 + 1
                       \<or> x mod 4 = y mod 4 + 1 \<and> y mod 4 = z mod 4 + 1))"

section \<open>Boards, symmetries and fingerprints\<close>

lemma INDICES_tables:
  "INDICES = [identity_table, rotation_table, row_flip_table, column_flip_table]"
  by (simp add: INDICES_def tables)

lemma length12:
  assumes "length (B::'a list) = 12"
  obtains b0 b1 b2 b3 b4 b5 b6 b7 b8 b9 b10 b11
  where "B = [b0, b1, b2, b3, b4, b5, b6, b7, b8, b9, b10, b11]"
  using assms by (auto simp: eval_nat_numeral length_Suc_conv)

lemma pow4: "(2::int) ^ (e * 2) = 4 ^ e"
  by (subst mult.commute) (simp add: power_mult)

lemma packed_digits: "packed B I = digits (permute I B)"
  by (simp add: packed_def digits_def permute_def enumerate_eq_zip zip_map2 comp_def
      case_prod_unfold push_bit_eq_mult pow4)

lemma game_hash_digits:
  "12 \<le> length B \<Longrightarrow> game_hash B = Inr (min_list (map (\<lambda>I. digits (permute I B)) INDICES))"
proof -
  have "packed B = (\<lambda>I. digits (permute I B))"
    by (rule ext) (rule packed_digits)
  then show "12 \<le> length B \<Longrightarrow> ?thesis"
    by (simp add: game_hash_def)
qed

lemma permute_INDICES:
  assumes "length B = 12"
  shows "map (\<lambda>J. permute J (permute identity_table B)) INDICES
           = [permute identity_table B, permute rotation_table B, permute row_flip_table B, permute column_flip_table B]"
    and "map (\<lambda>J. permute J (permute rotation_table B)) INDICES
           = [permute rotation_table B, permute identity_table B, permute column_flip_table B, permute row_flip_table B]"
    and "map (\<lambda>J. permute J (permute row_flip_table B)) INDICES
           = [permute row_flip_table B, permute column_flip_table B, permute identity_table B, permute rotation_table B]"
    and "map (\<lambda>J. permute J (permute column_flip_table B)) INDICES
           = [permute column_flip_table B, permute row_flip_table B, permute rotation_table B, permute identity_table B]"
proof -
  obtain b0 b1 b2 b3 b4 b5 b6 b7 b8 b9 b10 b11
    where B: "B = [b0, b1, b2, b3, b4, b5, b6, b7, b8, b9, b10, b11]"
    using assms(1) by (rule length12)
  show "map (\<lambda>J. permute J (permute identity_table B)) INDICES
           = [permute identity_table B, permute rotation_table B, permute row_flip_table B, permute column_flip_table B]"
    unfolding B INDICES_def permute_def tables by simp
  show "map (\<lambda>J. permute J (permute rotation_table B)) INDICES
           = [permute rotation_table B, permute identity_table B, permute column_flip_table B, permute row_flip_table B]"
    unfolding B INDICES_def permute_def tables by simp
  show "map (\<lambda>J. permute J (permute row_flip_table B)) INDICES
           = [permute row_flip_table B, permute column_flip_table B, permute identity_table B, permute rotation_table B]"
    unfolding B INDICES_def permute_def tables by simp
  show "map (\<lambda>J. permute J (permute column_flip_table B)) INDICES
           = [permute column_flip_table B, permute row_flip_table B, permute rotation_table B, permute identity_table B]"
    unfolding B INDICES_def permute_def tables by simp
qed

lemma INDICES_cases:
  assumes "I \<in> set INDICES"
  obtains "I = identity_table" | "I = rotation_table" | "I = row_flip_table" | "I = column_flip_table"
  using assms by (auto simp: INDICES_tables)

lemma length_permute: "I \<in> set INDICES \<Longrightarrow> length (permute I B) = 12"
  by (auto simp: INDICES_def permute_def)

lemma permute_closed:
  assumes "length B = 12" "I \<in> set INDICES" "J \<in> set INDICES"
  shows "\<exists>K\<in>set INDICES. permute J (permute I B) = permute K B"
proof -
  have "permute J (permute I B) \<in> set (map (\<lambda>J. permute J (permute I B)) INDICES)"
    using assms(3) by simp
  also have "\<dots> \<subseteq> (\<lambda>K. permute K B) ` set INDICES"
    using assms(2)
    by (rule INDICES_cases; hypsubst; unfold set_map[symmetric] permute_INDICES[OF assms(1)])
       (auto simp: INDICES_tables)
  finally show ?thesis by auto
qed

lemma permute_involution:
  assumes "length B = 12" "I \<in> set INDICES"
  shows "permute I (permute I B) = B"
proof -
  obtain b0 b1 b2 b3 b4 b5 b6 b7 b8 b9 b10 b11
    where B: "B = [b0, b1, b2, b3, b4, b5, b6, b7, b8, b9, b10, b11]"
    using assms(1) by (rule length12)
  from assms(2) show ?thesis
    unfolding B INDICES_def permute_def by auto
qed

lemma hash_list_permute:
  assumes "length B = 12" "I \<in> set INDICES"
  shows "min_list (map (\<lambda>J. digits (permute J (permute I B))) INDICES)
       = min_list (map (\<lambda>J. digits (permute J B)) INDICES)"
proof -
  have e: "map (\<lambda>J. digits (permute J (permute I B))) INDICES
         = map digits (map (\<lambda>J. permute J (permute I B)) INDICES)"
    by (simp add: comp_def)
  have r: "map (\<lambda>J. digits (permute J B)) INDICES
         = [digits (permute identity_table B), digits (permute rotation_table B),
            digits (permute row_flip_table B), digits (permute column_flip_table B)]"
    by (simp add: INDICES_tables)
  from assms(2) show ?thesis
    unfolding e r
    by (rule INDICES_cases; hypsubst; unfold permute_INDICES[OF assms(1)])
       (simp_all add: min.commute min.left_commute)
qed

lemma game_hash_permute:
  assumes "length B = 12" "I \<in> set INDICES"
  shows "game_hash (permute I B) = game_hash B"
  using assms by (simp add: game_hash_digits length_permute hash_list_permute)

lemma digits_shift:
  "sum_list (map (\<lambda>(e, x). x * 4 ^ e) (enumerate (Suc n) xs))
   = 4 * sum_list (map (\<lambda>(e, x). x * (4::int) ^ e) (enumerate n xs))"
  by (induction xs arbitrary: n) (simp_all add: algebra_simps)

lemma digits_Cons: "digits (x # xs) = x + 4 * digits xs"
  using digits_shift[of 0 xs] by (simp add: digits_def)

lemma digits_inject:
  assumes "length xs = length ys"
    and "list_all (\<lambda>v. 0 \<le> v \<and> v \<le> 3) xs" "list_all (\<lambda>v. 0 \<le> v \<and> v \<le> 3) ys"
    and "digits xs = digits ys"
  shows "xs = ys"
  using assms
proof (induction xs ys rule: list_induct2)
  case Nil
  then show ?case by simp
next
  case (Cons x xs y ys)
  from Cons.prems have b: "0 \<le> x" "x \<le> 3" "0 \<le> y" "y \<le> 3"
    and e: "x + 4 * digits xs = y + 4 * digits ys"
    by (simp_all add: digits_Cons)
  from b e have "x = y" by presburger
  with e have "digits xs = digits ys" by simp
  with Cons \<open>x = y\<close> show ?case by simp
qed

lemma wf_board_permute:
  assumes "wf_board B" "I \<in> set INDICES"
  shows "wf_board (permute I B)"
proof -
  have "\<forall>i\<in>set I. i < 12"
    using assms(2) by (auto simp: INDICES_def)
  with assms(1) show ?thesis
    using length_permute[OF assms(2)]
    by (auto simp: wf_board_def list_all_iff permute_def)
qed

lemma min_list_in: "xs \<noteq> [] \<Longrightarrow> min_list xs \<in> set (xs::int list)"
  by (simp add: min_list_Min)

lemma game_hash_collision:
  assumes "wf_board B1" "wf_board B2" "game_hash B1 = game_hash B2"
  shows "symmetric B1 B2"
proof -
  have l: "length B1 = 12" "length B2 = 12"
    using assms(1,2) by (simp_all add: wf_board_def)
  let ?h1 = "map (\<lambda>I. digits (permute I B1)) INDICES"
  let ?h2 = "map (\<lambda>I. digits (permute I B2)) INDICES"
  have ne: "?h1 \<noteq> []" "?h2 \<noteq> []" by (simp_all add: INDICES_def)
  from assms(3) have "min_list ?h1 = min_list ?h2"
    by (simp add: game_hash_digits l)
  moreover have "min_list ?h1 \<in> set ?h1" "min_list ?h2 \<in> set ?h2"
    using ne by (auto intro!: min_list_in simp del: set_map)
  ultimately obtain I J where IJ: "I \<in> set INDICES" "J \<in> set INDICES"
    and d: "digits (permute I B1) = digits (permute J B2)"
    by (auto simp: image_iff)
  have "permute I B1 = permute J B2"
    using wf_board_permute[OF assms(1) IJ(1)] wf_board_permute[OF assms(2) IJ(2)] d
    by (intro digits_inject) (simp_all add: wf_board_def)
  then have "permute J (permute I B1) = B2"
    by (simp add: permute_involution[OF l(2) IJ(2)])
  moreover obtain K where "K \<in> set INDICES" "permute J (permute I B1) = permute K B1"
    using permute_closed[OF l(1) IJ] by auto
  ultimately show ?thesis
    by (auto simp: symmetric_def list_ex_iff)
qed

lemma tables_geometry:
  "identity_table = map (\<lambda>i. i) [0..<12]"
  "rotation_table = map (\<lambda>i. 11 - i) [0..<12]"
  "row_flip_table = map (\<lambda>i. 4 * (2 - i div 4) + i mod 4) [0..<12]"
  "column_flip_table = map (\<lambda>i. 4 * (i div 4) + (3 - i mod 4)) [0..<12]"
  by (simp_all add: tables upt_rec)

lemma count_cells:
  assumes "length B = 12"
  shows "length (filter (\<lambda>i. B ! i < 3) [0..<12]) = length (filter (\<lambda>v. v < (3::int)) B)"
proof -
  have "B = map (\<lambda>i. B ! i) [0..<12]"
    using map_nth[of B] assms by simp
  then have "filter (\<lambda>v. v < 3) B = filter (\<lambda>v. v < 3) (map (\<lambda>i. B ! i) [0..<12])"
    by simp
  then show ?thesis
    by (simp add: filter_map comp_def)
qed

lemma full_board_over:
  assumes "wf_board B" "filter (\<lambda>i. B ! i < 3) [0..<12] = []"
  shows "game_over B"
proof -
  have "\<forall>i<12. B ! i = 3"
  proof (intro allI impI)
    fix i :: nat assume i: "i < 12"
    with assms(2) have "\<not> B ! i < 3"
      by (auto simp: filter_empty_conv)
    moreover have "B ! i \<le> 3"
      using assms(1) i by (auto simp: wf_board_def list_all_length)
    ultimately show "B ! i = 3" by simp
  qed
  then have "won B (0, 1, 2)"
    by (simp add: won_def)
  then show ?thesis
    by (simp add: game_over_def LINES_def)
qed

text \<open>
  Claim C2.  On a board of 12 cells with values in \<open>{0, 1, 2, 3}\<close>, \<open>game_moves\<close> returns the
  empty list exactly when some line of \<open>LINES\<close> holds three equal non-zero cells;
  otherwise it returns, in increasing order of the cell index, one successor for each of
  the cells 0..11 whose value is below 3, the board with that cell incremented by one, so
  the number of successors is the number of cells below 3.
\<close>

theorem game_moves_characterization:
  assumes "wf_board B"
  shows "(game_moves B = Inr [] \<longleftrightarrow> game_over B)
       \<and> (\<not> game_over B \<longrightarrow>
            game_moves B = Inr (map (\<lambda>i. B[i := B ! i + 1]) (filter (\<lambda>i. B ! i < 3) [0..<12]))
          \<and> length (filter (\<lambda>i. B ! i < 3) [0..<12]) = length (filter (\<lambda>v. v < 3) B))"
proof -
  have len: "length B = 12"
    using assms by (simp add: wf_board_def)
  then have eq: "game_moves B =
      Inr (if game_over B then []
           else map (\<lambda>i. B[i := B ! i + 1]) (filter (\<lambda>i. B ! i < 3) [0..<12]))"
    by (simp add: game_moves_eq)
  have "game_moves B = Inr [] \<longleftrightarrow> game_over B"
    using full_board_over[OF assms] by (auto simp: eq)
  then show ?thesis
    using count_cells[OF len] by (simp add: eq)
qed

theorem game_moves_characterization_witness:
  "wf_board [1, 1, 1, 0, 0, 0, 0, 0, 0, 0, 0, 0]
   \<and> game_over [1, 1, 1, 0, 0, 0, 0, 0, 0, 0, 0, 0]
   \<and> game_moves [1, 1, 1, 0, 0, 0, 0, 0, 0, 0, 0, 0] = Inr []
   \<and> wf_board [2, 3, 2, 3, 3, 2, 3, 3, 3, 2, 3, 2]
   \<and> \<not> game_over [2, 3, 2, 3, 3, 2, 3, 3, 3, 2, 3, 2]
   \<and> game_moves [2, 3, 2, 3, 3, 2, 3, 3, 3, 2, 3, 2]
       = Inr [[3, 3, 2, 3, 3, 2, 3, 3, 3, 2, 3, 2], [2, 3, 3, 3, 3, 2, 3, 3, 3, 2, 3, 2],
              [2, 3, 2, 3, 3, 3, 3, 3, 3, 2, 3, 2], [2, 3, 2, 3, 3, 2, 3, 3, 3, 3, 3, 2],
              [2, 3, 2, 3, 3, 2, 3, 3, 3, 2, 3, 3]]"
proof -
  have w1: "wf_board [1, 1, 1, 0, 0, 0, 0, 0, 0, 0, 0, 0]"
    by (simp add: wf_board_def)
  have o1: "game_over [1, 1, 1, 0, 0, 0, 0, 0, 0, 0, 0, 0]"
    by (simp add: game_over_def LINES_def won_def)
  have w2: "wf_board [2, 3, 2, 3, 3, 2, 3, 3, 3, 2, 3, 2]"
    by (simp add: wf_board_def)
  have o2: "\<not> game_over [2, 3, 2, 3, 3, 2, 3, 3, 3, 2, 3, 2]"
    by (simp add: game_over_def LINES_def won_def)
  have f: "filter (\<lambda>i. [2, 3, 2, 3, 3, 2, 3, 3, 3, 2, 3, 2] ! i < (3::int)) [0..<12]
           = [0, 2, 5, 9, 11]"
    by (simp add: upt_conv_Cons)
  show ?thesis
    using game_moves_characterization[OF w1] game_moves_characterization[OF w2] w1 o1 w2 o2
    by (simp add: f)
qed

text \<open>
  Claim C4.  The fingerprint is invariant under the four symmetry transforms: for a
  board \<open>B\<close> of 12 cells with values in \<open>{0, 1, 2, 3}\<close> and each table \<open>I\<close> of \<open>INDICES\<close>
  (the identity, the 180-degree rotation and the two axis reflections, see
  \<open>tables_geometry\<close>), the board read through \<open>I\<close> has the fingerprint of \<open>B\<close>.
\<close>

theorem game_hash_symmetry_invariant:
  assumes "wf_board B" "I \<in> set INDICES"
  shows "game_hash (permute I B) = game_hash B"
  using assms by (simp add: wf_board_def game_hash_permute)

theorem game_hash_symmetry_invariant_witness:
  "wf_board [1, 0, 0, 0, 0, 2, 0, 0, 0, 0, 0, 3]
   \<and> [11, 10, 9, 8, 7, 6, 5, 4, 3, 2, 1, 0] \<in> set INDICES
   \<and> permute [11, 10, 9, 8, 7, 6, 5, 4, 3, 2, 1, 0] [1, 0, 0, 0, 0, 2, 0, 0, 0, 0, 0, 3]
       = [3, 0, 0, 0, 0, 0, 2, 0, 0, 0, 0, 1]
   \<and> game_hash [3, 0, 0, 0, 0, 0, 2, 0, 0, 0, 0, 1] = game_hash [1, 0, 0, 0, 0, 2, 0, 0, 0, 0, 0, 3]"
proof -
  have w: "wf_board [1, 0, 0, 0, 0, 2, 0, 0, 0, 0, 0, 3]"
    by (simp add: wf_board_def)
  have i: "[11, 10, 9, 8, 7, 6, 5, 4, 3, 2, 1, 0] \<in> set INDICES"
    by (simp add: INDICES_def)
  have p: "permute [11, 10, 9, 8, 7, 6, 5, 4, 3, 2, 1, 0] [1, 0, 0, 0, 0, 2, 0, 0, 0, 0, 0, 3]
           = [3, 0, 0, 0, 0, 0, 2, 0, 0, 0, 0, 1]"
    by (simp add: permute_def)
  show ?thesis
    using game_hash_symmetry_invariant[OF w i] w i p by simp
qed

text \<open>
  Claim C10.  Fingerprints collide only for symmetric boards: two boards of 12 cells
  with values in \<open>{0, 1, 2, 3}\<close> that have the same fingerprint are images of each other
  under one of the four tables of \<open>INDICES\<close>.
\<close>

theorem game_hash_collision_symmetric:
  assumes "wf_board B1" "wf_board B2" "game_hash B1 = game_hash B2"
  shows "symmetric B1 B2"
  using assms by (rule game_hash_collision)

theorem game_hash_collision_symmetric_witness:
  "wf_board [1, 0, 0, 0, 0, 2, 0, 0, 0, 0, 0, 3] \<and> wf_board [0, 0, 0, 1, 0, 0, 2, 0, 3, 0, 0, 0]
   \<and> game_hash [1, 0, 0, 0, 0, 2, 0, 0, 0, 0, 0, 3] = game_hash [0, 0, 0, 1, 0, 0, 2, 0, 3, 0, 0, 0]
   \<and> symmetric [1, 0, 0, 0, 0, 2, 0, 0, 0, 0, 0, 3] [0, 0, 0, 1, 0, 0, 2, 0, 3, 0, 0, 0]"
proof -
  have w1: "wf_board [1, 0, 0, 0, 0, 2, 0, 0, 0, 0, 0, 3]"
    by (simp add: wf_board_def)
  have w2: "wf_board [0, 0, 0, 1, 0, 0, 2, 0, 3, 0, 0, 0]"
    by (simp add: wf_board_def)
  have h: "game_hash [1, 0, 0, 0, 0, 2, 0, 0, 0, 0, 0, 3] = game_hash [0, 0, 0, 1, 0, 0, 2, 0, 3, 0, 0, 0]"
    by (simp add: game_hash_def INDICES_def packed_def enumerate_eq_zip upt_conv_Cons)
  show ?thesis
    using game_hash_collision_symmetric[OF w1 w2 h] w1 w2 h by simp
qed

section \<open>Invariants of the solver\<close>

lemma game_value_error: "game_hash b = Inl e \<Longrightarrow> game_value b d c = (Inl e, c)"
  by (simp add: game_value.simps)

lemma game_value_moves_error:
  "game_hash b = Inr h \<Longrightarrow> c h = None \<Longrightarrow> game_moves b = Inl e \<Longrightarrow> game_value b d c = (Inl e, c)"
  by (simp add: game_value.simps)

lemma game_value_miss:
  "game_hash b = Inr h \<Longrightarrow> c h = None \<Longrightarrow> game_moves b = Inr ms \<Longrightarrow>
   game_value b d c =
     remember h (if ms = [] then (Inr PREV, c)
                 else if d = 0 then (Inr UNKNOWN, c)
                 else value_loop (\<lambda>move. game_value move (d - 1)) PREV ms c)"
  by (simp add: game_value.simps[of b] remember_def)

lemma game_value_cases [case_names error hit moves_error miss]:
  assumes "\<And>e. game_hash b = Inl e \<Longrightarrow> game_value b d c = (Inl e, c) \<Longrightarrow> P"
    and "\<And>h v. game_hash b = Inr h \<Longrightarrow> c h = Some v \<Longrightarrow> game_value b d c = (Inr v, c) \<Longrightarrow> P"
    and "\<And>h e. game_hash b = Inr h \<Longrightarrow> c h = None \<Longrightarrow> game_moves b = Inl e
           \<Longrightarrow> game_value b d c = (Inl e, c) \<Longrightarrow> P"
    and "\<And>h ms. game_hash b = Inr h \<Longrightarrow> c h = None \<Longrightarrow> game_moves b = Inr ms
           \<Longrightarrow> game_value b d c =
                 remember h (if ms = [] then (Inr PREV, c)
                             else if d = 0 then (Inr UNKNOWN, c)
                             else value_loop (\<lambda>move. game_value move (d - 1)) PREV ms c) \<Longrightarrow> P"
  shows P
proof (cases "game_hash b")
  case (Inl e)
  then show ?thesis using assms(1) game_value_error by blast
next
  case h: (Inr h)
  show ?thesis
  proof (cases "c h")
    case (Some v)
    with h show ?thesis using assms(2) by (simp add: game_value.simps)
  next
    case None
    show ?thesis
    proof (cases "game_moves b")
      case (Inl e)
      with h None show ?thesis using assms(3) game_value_moves_error by blast
    next
      case (Inr ms)
      with h None show ?thesis using assms(4) game_value_miss by blast
    qed
  qed
qed

lemma ran_upd_in: "x \<in> ran (m(k \<mapsto> v)) \<Longrightarrow> x = v \<or> x \<in> ran m"
  by (auto simp: ran_def split: if_splits)

lemma remember_no_unknown:
  "UNKNOWN \<notin> ran (snd rc) \<Longrightarrow> UNKNOWN \<notin> ran (snd (remember h rc))"
  by (cases rc) (auto simp: remember_def split: sum.splits dest!: ran_upd_in)

lemma value_loop_no_unknown:
  assumes "\<And>m k. m \<in> set ms \<Longrightarrow> UNKNOWN \<notin> ran k \<Longrightarrow> UNKNOWN \<notin> ran (snd (rec m k))"
    and "UNKNOWN \<notin> ran c"
  shows "UNKNOWN \<notin> ran (snd (value_loop rec val ms c))"
  using assms
proof (induction ms arbitrary: val c)
  case Nil
  then show ?case by simp
next
  case (Cons m ms)
  from Cons.prems(1)[of m c] Cons.prems(2)
  have k: "UNKNOWN \<notin> ran (snd (rec m c))" by simp
  show ?case
  proof (cases "rec m c")
    case (Pair r k)
    with k have k': "UNKNOWN \<notin> ran k" by simp
    show ?thesis
    proof (cases r)
      case (Inl e)
      with Pair k' show ?thesis by simp
    next
      case (Inr v)
      have "UNKNOWN \<notin> ran (snd (value_loop rec (max val (- v)) ms k))"
        using Cons.prems(1) k' by (intro Cons.IH) auto
      with Pair Inr k' show ?thesis by (simp add: Let_def)
    qed
  qed
qed

lemma game_value_no_unknown:
  "UNKNOWN \<notin> ran c \<Longrightarrow> UNKNOWN \<notin> ran (snd (game_value b d c))"
proof (induction b d c rule: game_value.induct)
  case (1 board depth cache)
  show ?case
  proof (cases board depth cache rule: game_value_cases)
    case (miss h ms)
    have "UNKNOWN \<notin> ran (snd (value_loop (\<lambda>move. game_value move (depth - 1)) PREV ms cache))"
      if "ms \<noteq> []" "depth \<noteq> 0"
      using 1 miss that by (intro value_loop_no_unknown) auto
    with miss(4) 1(2) show ?thesis
      by (auto intro!: remember_no_unknown)
  qed (use 1 in auto)
qed

lemma max_neg_game_values:
  "val \<in> game_values \<Longrightarrow> v \<in> game_values \<Longrightarrow> max val (- v) \<in> game_values"
  by (auto simp: game_values_def PREV_def NEXT_def UNKNOWN_def max_def)

lemma fst_remember: "fst (remember h rc) = fst rc"
  by (cases rc) (auto simp: remember_def split: sum.splits)

lemma remember_within:
  assumes "PREV \<in> S" "NEXT \<in> S" "ran (snd rc) \<subseteq> S" "\<forall>v. fst rc = Inr v \<longrightarrow> v \<in> game_values"
  shows "ran (snd (remember h rc)) \<subseteq> S"
  using assms
  by (cases rc)
     (auto simp: remember_def game_values_def split: sum.splits dest!: ran_upd_in)

lemma value_loop_within:
  assumes "\<And>m k. m \<in> set ms \<Longrightarrow> ran k \<subseteq> S \<Longrightarrow>
             ran (snd (rec m k)) \<subseteq> S \<and> (\<forall>v. fst (rec m k) = Inr v \<longrightarrow> v \<in> game_values)"
    and "ran c \<subseteq> S" "val \<in> game_values"
  shows "ran (snd (value_loop rec val ms c)) \<subseteq> S
       \<and> (\<forall>v. fst (value_loop rec val ms c) = Inr v \<longrightarrow> v \<in> game_values)"
  using assms
proof (induction ms arbitrary: val c)
  case Nil
  then show ?case by simp
next
  case (Cons m ms)
  from Cons.prems(1)[of m c] Cons.prems(2)
  have k: "ran (snd (rec m c)) \<subseteq> S" "\<forall>v. fst (rec m c) = Inr v \<longrightarrow> v \<in> game_values"
    by simp_all
  show ?case
  proof (cases "rec m c")
    case (Pair r k)
    with k have k': "ran k \<subseteq> S" by simp
    show ?thesis
    proof (cases r)
      case (Inl e)
      with Pair k' show ?thesis by simp
    next
      case (Inr v)
      with Pair k(2) have v: "max val (- v) \<in> game_values"
        using Cons.prems(3) by (auto intro: max_neg_game_values)
      have "ran (snd (value_loop rec (max val (- v)) ms k)) \<subseteq> S
          \<and> (\<forall>w. fst (value_loop rec (max val (- v)) ms k) = Inr w \<longrightarrow> w \<in> game_values)"
        using Cons.prems(1) k' v by (intro Cons.IH) auto
      with Pair Inr k' v show ?thesis by (auto simp: Let_def)
    qed
  qed
qed

lemma game_value_within:
  assumes "PREV \<in> S" "NEXT \<in> S" "S \<subseteq> game_values"
  shows "ran c \<subseteq> S \<Longrightarrow>
         ran (snd (game_value b d c)) \<subseteq> S \<and> (\<forall>v. fst (game_value b d c) = Inr v \<longrightarrow> v \<in> game_values)"
proof (induction b d c rule: game_value.induct)
  case (1 board depth cache)
  show ?case
  proof (cases board depth cache rule: game_value_cases)
    case (hit h v)
    with 1(2) assms(3) have "v \<in> game_values"
      by (auto simp: ran_def)
    with hit 1(2) show ?thesis by simp
  next
    case (miss h ms)
    let ?rc = "if ms = [] then (Inr PREV, cache)
               else if depth = 0 then (Inr UNKNOWN, cache)
               else value_loop (\<lambda>move. game_value move (depth - 1)) PREV ms cache"
    have "ran (snd (value_loop (\<lambda>move. game_value move (depth - 1)) PREV ms cache)) \<subseteq> S
        \<and> (\<forall>v. fst (value_loop (\<lambda>move. game_value move (depth - 1)) PREV ms cache) = Inr v
              \<longrightarrow> v \<in> game_values)"
      if "ms \<noteq> []" "depth \<noteq> 0"
      using 1 miss that by (intro value_loop_within) (auto simp: game_values_def)
    with 1(2) have "ran (snd ?rc) \<subseteq> S \<and> (\<forall>v. fst ?rc = Inr v \<longrightarrow> v \<in> game_values)"
      by (auto simp: game_values_def)
    with miss(4) assms(1,2) show ?thesis
      by (simp add: remember_within fst_remember)
  qed (use 1 in auto)
qed

lemma game_value_resolved:
  "resolved c \<Longrightarrow>
   resolved (snd (game_value b d c)) \<and> (\<forall>v. fst (game_value b d c) = Inr v \<longrightarrow> v \<in> game_values)"
  using game_value_within[of "{PREV, NEXT}" c b d] by (simp add: resolved_def game_values_def)

lemma value_loop_no_error:
  assumes "\<And>m k. m \<in> set ms \<Longrightarrow> \<exists>v. fst (rec m k) = Inr v"
  shows "\<exists>v. fst (value_loop rec val ms c) = Inr v"
  using assms
proof (induction ms arbitrary: val c)
  case Nil
  then show ?case by simp
next
  case (Cons m ms)
  from Cons.prems[of m c] obtain v k where r: "rec m c = (Inr v, k)"
    by (cases "rec m c") auto
  have "\<exists>w. fst (value_loop rec (max val (- v)) ms k) = Inr w"
    using Cons.prems by (intro Cons.IH) auto
  with r show ?case by (auto simp: Let_def)
qed

lemma game_value_no_error:
  "12 \<le> length b \<Longrightarrow> \<exists>v. fst (game_value b d c) = Inr v"
proof (induction b d c rule: game_value.induct)
  case (1 board depth cache)
  note len = \<open>12 \<le> length board\<close>
  show ?case
  proof (cases board depth cache rule: game_value_cases)
    case (error e)
    with len show ?thesis by (simp add: game_hash_def)
  next
    case (moves_error h e)
    with len show ?thesis by (simp add: game_moves_eq)
  next
    case (miss h ms)
    have "\<exists>v. fst (value_loop (\<lambda>move. game_value move (depth - 1)) PREV ms cache) = Inr v"
      if "ms \<noteq> []" "depth \<noteq> 0"
    proof (rule value_loop_no_error)
      fix m k assume m: "m \<in> set ms"
      with miss(3) have "12 \<le> length m"
        using len by (auto simp: game_moves_eq split: if_splits)
      then show "\<exists>v. fst (game_value m (depth - 1) k) = Inr v"
        using miss that m by (intro "1.IH") auto
    qed
    with miss(4) show ?thesis
      by (auto simp: fst_remember)
  qed auto
qed

lemma sum_list_update_int:
  "i < length xs \<Longrightarrow> sum_list (xs[i := x]) = sum_list xs - xs ! i + (x::int)"
  by (induction xs arbitrary: i) (auto split: nat.splits)

lemma game_moves_wf:
  assumes "wf_board b" "game_moves b = Inr ms" "m \<in> set ms"
  shows "wf_board m \<and> sum_list m = sum_list b + 1"
proof -
  have len: "length b = 12" and cells: "\<forall>v\<in>set b. 0 \<le> v \<and> v \<le> 3"
    using assms(1) by (simp_all add: wf_board_def list_all_iff)
  from assms(2,3) obtain i where i: "i < 12" "b ! i < 3" and m: "m = b[i := b ! i + 1]"
    by (auto simp: game_moves_eq len split: if_splits)
  have "0 \<le> b ! i"
    using cells i(1) len by (simp add: all_set_conv_all_nth)
  then have "\<forall>v\<in>set m. 0 \<le> v \<and> v \<le> 3"
    using cells i(2) set_update_subset_insert[of b i "b ! i + 1"] unfolding m by auto
  moreover have "sum_list m = sum_list b + 1"
    unfolding m using i(1) len by (simp add: sum_list_update_int)
  ultimately show ?thesis
    using len by (simp add: wf_board_def list_all_iff m)
qed

lemma headroom_sum:
  "\<forall>v\<in>set xs. v \<le> 3 \<Longrightarrow> int (sum_list (map (\<lambda>v. nat (3 - v)) xs)) = 3 * int (length xs) - sum_list xs"
  by (induction xs) auto

lemma room_wf:
  assumes "wf_board b"
  shows "int (room b) = 36 - sum_list b"
proof -
  have len: "length b = 12" and cells: "\<forall>v\<in>set b. v \<le> 3"
    using assms by (auto simp: wf_board_def list_all_iff)
  have "map (\<lambda>i. nat (3 - b ! i)) [0..<12] = map (\<lambda>v. nat (3 - v)) (map (\<lambda>i. b ! i) [0..<length b])"
    by (simp add: len)
  also have "\<dots> = map (\<lambda>v. nat (3 - v)) b"
    by (simp only: map_nth)
  finally show ?thesis
    using headroom_sum[OF cells] by (simp add: room_def len)
qed

lemma wf_board_hash: "wf_board b \<Longrightarrow> \<exists>h. game_hash b = Inr h"
  by (simp add: wf_board_def game_hash_def)

lemma wf_board_moves: "wf_board b \<Longrightarrow> \<exists>ms. game_moves b = Inr ms"
  by (simp add: wf_board_def game_moves_eq)

lemma value_loop_decided:
  assumes "\<And>m k. m \<in> set ms \<Longrightarrow> resolved k \<Longrightarrow> decided (fst (rec m k)) \<and> resolved (snd (rec m k))"
    and "resolved c" "val = PREV \<or> val = NEXT"
  shows "decided (fst (value_loop rec val ms c))"
  using assms
proof (induction ms arbitrary: val c)
  case Nil
  then show ?case by (auto simp: decided_def)
next
  case (Cons m ms)
  from Cons.prems(1)[of m c] Cons.prems(2)
  obtain v k where r: "rec m c = (Inr v, k)" and v: "v = PREV \<or> v = NEXT" and k: "resolved k"
    by (cases "rec m c") (auto simp: decided_def)
  from v Cons.prems(3) have v': "max val (- v) = PREV \<or> max val (- v) = NEXT"
    by (auto simp: PREV_def NEXT_def)
  have "decided (fst (value_loop rec (max val (- v)) ms k))"
    using Cons.prems(1) k v' by (intro Cons.IH) auto
  with r show ?case
    by (auto simp: Let_def decided_def)
qed

lemma game_value_decided:
  "wf_board b \<Longrightarrow> resolved c \<Longrightarrow> d < 0 \<or> int (room b) \<le> d \<Longrightarrow> decided (fst (game_value b d c))"
proof (induction b d c rule: game_value.induct)
  case (1 board depth cache)
  show ?case
  proof (cases board depth cache rule: game_value_cases)
    case (error e)
    with wf_board_hash[OF 1(2)] show ?thesis by simp
  next
    case (hit h v)
    with 1(3) have "v = PREV \<or> v = NEXT"
      by (auto simp: resolved_def ran_def)
    with hit show ?thesis by (simp add: decided_def)
  next
    case (moves_error h e)
    with wf_board_moves[OF 1(2)] show ?thesis by simp
  next
    case (miss h ms)
    show ?thesis
    proof (cases "ms = []")
      case True
      with miss(4) show ?thesis by (simp add: fst_remember decided_def)
    next
      case False
      then obtain m where m: "m \<in> set ms" by (cases ms) auto
      with game_moves_room[OF miss(3)] have "0 < room board" by fastforce
      with 1(4) have d: "depth \<noteq> 0" by auto
      have "decided (fst (value_loop (\<lambda>move. game_value move (depth - 1)) PREV ms cache))"
      proof (intro value_loop_decided conjI)
        fix m k assume mk: "m \<in> set ms" "resolved k"
        have w: "wf_board m"
          using game_moves_wf[OF 1(2) miss(3) mk(1)] by simp
        have "room m < room board"
          using game_moves_room[OF miss(3) mk(1)] .
        with 1(4) have "depth - 1 < 0 \<or> int (room m) \<le> depth - 1" by auto
        then show "decided (fst (game_value m (depth - 1) k))"
          using miss False d mk w by (intro 1(1)) auto
        show "resolved (snd (game_value m (depth - 1) k))"
          using mk(2) by (simp add: game_value_resolved)
      qed (use 1(3) in auto)
      with miss(4) False d show ?thesis by (simp add: fst_remember)
    qed
  qed
qed

section \<open>The recursion depth of the solver\<close>

lemma value_loop_bounded_eq:
  "(\<And>m k. m \<in> set ms \<Longrightarrow> rec' m k = Some (rec m k))
   \<Longrightarrow> value_loop_bounded rec' val ms c = Some (value_loop rec val ms c)"
  by (induction ms arbitrary: val c) (auto simp: Let_def split: prod.splits sum.splits)

lemma game_value_call_eq:
  assumes "\<And>ms m k. game_moves b = Inr ms \<Longrightarrow> m \<in> set ms \<Longrightarrow> rec' m k = Some (game_value m (d - 1) k)"
  shows "game_value_call rec' b d c = Some (game_value b d c)"
proof (cases b d c rule: game_value_cases)
  case (miss h ms)
  have "value_loop_bounded rec' PREV ms c = Some (value_loop (\<lambda>move. game_value move (d - 1)) PREV ms c)"
    using assms[OF miss(3)] by (intro value_loop_bounded_eq) auto
  with miss show ?thesis
    by (auto simp: game_value_call_def remember_def split: prod.splits sum.splits)
qed (auto simp: game_value_call_def)

lemma game_value_bounded_eq:
  "room b \<le> n \<Longrightarrow> game_value_bounded n b d c = Some (game_value b d c)"
proof (induction n arbitrary: b d c)
  case 0
  have "False" if "game_moves b = Inr ms" "m \<in> set ms" for ms m
    using game_moves_room[OF that] 0 by simp
  then show ?case
    by (auto intro!: game_value_call_eq)
next
  case (Suc n)
  have "game_value_bounded n m (d - 1) k = Some (game_value m (d - 1) k)"
    if "game_moves b = Inr ms" "m \<in> set ms" for ms m k
    using game_moves_room[OF that] Suc.prems by (intro Suc.IH) auto
  then show ?case
    by (auto intro!: game_value_call_eq)
qed

declare game_value_bounded.simps [simp del]

section \<open>The game-theoretic value and the soundness of the cache\<close>

lemma negamax_values: "negamax b = PREV \<or> negamax b = NEXT"
  using negamax.simps[of b] by (auto split: sum.splits)

lemma won_through:
  assumes "length I = 12" "x < 12" "y < 12" "z < 12"
  shows "won (permute I B) (x, y, z) = won B (through I (x, y, z))"
proof -
  have "permute I B ! x = B ! (I ! x)" "permute I B ! y = B ! (I ! y)" "permute I B ! z = B ! (I ! z)"
    using assms by (simp_all add: permute_def)
  then show ?thesis
    by (auto simp: won_def)
qed

lemma LINES_through_tables:
  "list_all (\<lambda>I. list_all (\<lambda>l. l \<in> set LINES) (map (through I) LINES)
                \<and> list_all (\<lambda>l. l \<in> set (map (through I) LINES)) LINES) INDICES"
  by code_simp

lemma LINES_through:
  assumes "I \<in> set INDICES"
  shows "set (map (through I) LINES) = set LINES"
  using LINES_through_tables assms unfolding list_all_iff by blast

lemma game_over_permute:
  assumes "I \<in> set INDICES"
  shows "game_over (permute I B) = game_over B"
proof -
  have len: "length I = 12"
    using assms by (auto simp: INDICES_def)
  have "won (permute I B) l = won B (through I l)" if "l \<in> set LINES" for l
  proof -
    obtain x y z where l: "l = (x, y, z)" by (cases l) auto
    with that have "x < 12" "y < 12" "z < 12"
      by (auto simp: LINES_def)
    then show ?thesis
      unfolding l by (rule won_through[OF len])
  qed
  then have "game_over (permute I B) = (\<exists>l\<in>set (map (through I) LINES). won B l)"
    by (simp add: game_over_def list_ex_iff)
  then show ?thesis
    by (simp only: LINES_through[OF assms] game_over_def list_ex_iff)
qed

lemma INDICES_perm:
  assumes "I \<in> set INDICES"
  shows "length I = 12" "distinct I" "set I = {0..<12}"
proof -
  show l: "length I = 12" and d: "distinct I"
    using assms by (auto simp: INDICES_def)
  have "set I \<subseteq> {0..<12}"
    using assms by (auto simp: INDICES_def)
  moreover have "card (set I) = card {0..<12::nat}"
    using l d by (simp add: distinct_card)
  ultimately show "set I = {0..<12}"
    by (intro card_subset_eq) auto
qed

lemma permute_nth: "I \<in> set INDICES \<Longrightarrow> j < 12 \<Longrightarrow> permute I B ! j = B ! (I ! j)"
  by (simp add: permute_def INDICES_perm)

lemma permute_update:
  assumes "I \<in> set INDICES" "length B = 12" "j < 12"
  shows "(permute I B)[j := x] = permute I (B[I ! j := x])"
proof (rule nth_equalityI)
  show "length ((permute I B)[j := x]) = length (permute I (B[I ! j := x]))"
    by (simp add: permute_def)
next
  fix p assume "p < length ((permute I B)[j := x])"
  then have p: "p < 12"
    using INDICES_perm(1)[OF assms(1)] by (simp add: permute_def)
  have in12: "I ! p < 12" "I ! j < 12"
    using INDICES_perm[OF assms(1)] p assms(3) nth_mem[of p I] nth_mem[of j I] by auto
  have "I ! p = I ! j \<longleftrightarrow> p = j"
    using INDICES_perm[OF assms(1)] p assms(3) by (simp add: nth_eq_iff_index_eq)
  then show "(permute I B)[j := x] ! p = permute I (B[I ! j := x]) ! p"
    using p assms in12 INDICES_perm(1)[OF assms(1)]
    by (auto simp: permute_def nth_list_update)
qed

lemma list_ex_moves:
  assumes "length b = 12" "game_moves b = Inr ms"
  shows "list_ex P ms \<longleftrightarrow> \<not> game_over b \<and> (\<exists>i<12. b ! i < 3 \<and> P (b[i := b ! i + 1]))"
  using assms(2) unfolding game_moves_eq[of b, unfolded assms(1), simplified]
  by (auto simp: list_ex_iff split: if_splits)

lemma negamax_unfold:
  assumes "length b = 12"
  shows "negamax b =
           (if \<not> game_over b \<and> (\<exists>i<12. b ! i < 3 \<and> negamax (b[i := b ! i + 1]) = PREV)
            then NEXT else PREV)"
proof -
  obtain ms where ms: "game_moves b = Inr ms"
    using assms by (simp add: game_moves_eq)
  show ?thesis
    by (subst negamax.simps) (simp add: ms list_ex_moves[OF assms ms])
qed

lemma negamax_permute:
  "length b = 12 \<Longrightarrow> I \<in> set INDICES \<Longrightarrow> negamax (permute I b) = negamax b"
proof (induction b arbitrary: I rule: negamax.induct)
  case (1 b)
  note len = \<open>length b = 12\<close> and I = \<open>I \<in> set INDICES\<close>
  have lenp: "length (permute I b) = 12"
    using I by (rule length_permute)
  obtain ms where ms: "game_moves b = Inr ms"
    using len by (simp add: game_moves_eq)
  have step: "negamax (permute I (b[i := b ! i + 1])) = negamax (b[i := b ! i + 1])"
    if "\<not> game_over b" "i < 12" "b ! i < 3" for i
  proof -
    have "b[i := b ! i + 1] \<in> set ms"
      using ms that unfolding game_moves_eq[of b, unfolded len, simplified] by auto
    then show ?thesis
      using len I by (intro "1.IH"[OF ms]) auto
  qed
  have "(\<exists>j<12. permute I b ! j < 3
            \<and> negamax ((permute I b)[j := permute I b ! j + 1]) = PREV)
      \<longleftrightarrow> (\<exists>i<12. b ! i < 3 \<and> negamax (b[i := b ! i + 1]) = PREV)"
    if no: "\<not> game_over b"
  proof
    assume "\<exists>j<12. permute I b ! j < 3 \<and> negamax ((permute I b)[j := permute I b ! j + 1]) = PREV"
    then obtain j where j: "j < 12" "b ! (I ! j) < 3"
      "negamax (permute I (b[I ! j := b ! (I ! j) + 1])) = PREV"
      using I len by (auto simp: permute_nth permute_update)
    have "I ! j < 12"
      using INDICES_perm[OF I] j(1) nth_mem[of j I] by auto
    with j step[OF no this j(2)] show "\<exists>i<12. b ! i < 3 \<and> negamax (b[i := b ! i + 1]) = PREV"
      by auto
  next
    assume "\<exists>i<12. b ! i < 3 \<and> negamax (b[i := b ! i + 1]) = PREV"
    then obtain i where i: "i < 12" "b ! i < 3" "negamax (b[i := b ! i + 1]) = PREV"
      by auto
    then have "i \<in> set I"
      using INDICES_perm[OF I] by simp
    then obtain j where j: "j < 12" "I ! j = i"
      using INDICES_perm(1)[OF I] by (auto simp: in_set_conv_nth)
    have "negamax ((permute I b)[j := permute I b ! j + 1]) = PREV"
      using step[OF no i(1,2)] i(3) j I len by (simp add: permute_nth permute_update)
    with j i(2) I show "\<exists>j<12. permute I b ! j < 3
            \<and> negamax ((permute I b)[j := permute I b ! j + 1]) = PREV"
      by (auto simp: permute_nth)
  qed
  then show ?case
    unfolding negamax_unfold[OF lenp] negamax_unfold[OF len] game_over_permute[OF I]
    by auto
qed

lemma sound_empty: "sound Map.empty"
  by (simp add: sound_def)

lemma negamax_same_hash:
  assumes "wf_board b" "wf_board b'" "game_hash b = game_hash b'"
  shows "negamax b' = negamax b"
proof -
  from game_hash_collision[OF assms] obtain I where "I \<in> set INDICES" "b' = permute I b"
    by (auto simp: symmetric_def list_ex_iff)
  then show ?thesis
    using assms(1) by (simp add: negamax_permute wf_board_def)
qed

lemma sound_update:
  assumes "sound c" "wf_board b" "game_hash b = Inr h"
  shows "sound (c(h \<mapsto> negamax b))"
  unfolding sound_def
proof (intro allI impI)
  fix b' h' v
  assume b': "wf_board b'" "game_hash b' = Inr h'" "(c(h \<mapsto> negamax b)) h' = Some v"
  show "v = negamax b'"
  proof (cases "h' = h")
    case True
    with b' assms have "negamax b' = negamax b"
      by (intro negamax_same_hash) auto
    with True b'(3) show ?thesis by simp
  next
    case False
    with b' assms(1) show ?thesis by (auto simp: sound_def)
  qed
qed

lemma value_loop_sound:
  assumes "\<And>m k. m \<in> set ms \<Longrightarrow> sound k \<Longrightarrow> answer m (rec m k)"
    and "sound c" "val = PREV \<or> val = UNKNOWN"
  shows "\<exists>v c'. value_loop rec val ms c = (Inr v, c') \<and> sound c' \<and> v \<in> game_values
           \<and> (v = NEXT \<longrightarrow> (\<exists>m\<in>set ms. negamax m = PREV))
           \<and> (v = PREV \<longrightarrow> val = PREV \<and> (\<forall>m\<in>set ms. negamax m = NEXT))"
  using assms
proof (induction ms arbitrary: val c)
  case Nil
  then show ?case by (auto simp: game_values_def PREV_def NEXT_def UNKNOWN_def)
next
  case (Cons m ms)
  from Cons.prems(1)[of m c] Cons.prems(2)
  obtain v k where r: "rec m c = (Inr v, k)" and v: "v \<in> game_values"
    and t: "v \<noteq> UNKNOWN \<longrightarrow> v = negamax m" and k: "sound k"
    by (cases "rec m c") (auto simp: answer_def)
  show ?case
  proof (cases "max val (- v) = NEXT")
    case True
    with v Cons.prems(3) have "v = PREV"
      by (auto simp: game_values_def PREV_def NEXT_def UNKNOWN_def max_def split: if_splits)
    with t have "negamax m = PREV"
      by (auto simp: PREV_def UNKNOWN_def)
    with r True k show ?thesis
      by (auto simp: game_values_def PREV_def NEXT_def)
  next
    case False
    with v Cons.prems(3) have v': "v = NEXT \<or> v = UNKNOWN"
      and val': "max val (- v) = PREV \<or> max val (- v) = UNKNOWN"
      by (auto simp: game_values_def PREV_def NEXT_def UNKNOWN_def max_def split: if_splits)
    from Cons.IH[of k "max val (- v)", OF Cons.prems(1) k val']
    obtain w c' where w: "value_loop rec (max val (- v)) ms k = (Inr w, c')" "sound c'"
      "w \<in> game_values" "w = NEXT \<longrightarrow> (\<exists>m\<in>set ms. negamax m = PREV)"
      "w = PREV \<longrightarrow> max val (- v) = PREV \<and> (\<forall>m\<in>set ms. negamax m = NEXT)"
      by auto
    have "val = PREV \<and> negamax m = NEXT" if "max val (- v) = PREV"
      using that v' t Cons.prems(3)
      by (auto simp: PREV_def NEXT_def UNKNOWN_def max_def split: if_splits)
    with r False w show ?thesis
      by (auto simp: Let_def)
  qed
qed

lemma game_value_sound:
  "wf_board b \<Longrightarrow> sound c \<Longrightarrow> answer b (game_value b d c)"
proof (induction b d c rule: game_value.induct)
  case (1 board depth cache)
  note wf = \<open>wf_board board\<close> and snd = \<open>sound cache\<close>
  have len: "length board = 12"
    using wf by (simp add: wf_board_def)
  show ?case
  proof (cases board depth cache rule: game_value_cases)
    case (error e)
    with wf_board_hash[OF wf] show ?thesis by simp
  next
    case (hit h v)
    with wf snd have "v = negamax board"
      by (auto simp: sound_def)
    with hit snd negamax_values[of board] show ?thesis
      by (auto simp: answer_def game_values_def)
  next
    case (moves_error h e)
    with wf_board_moves[OF wf] show ?thesis by simp
  next
    case (miss h ms)
    have upd: "sound (k(h \<mapsto> negamax board))" if "sound k" for k
      using that wf miss(1) by (rule sound_update)
    show ?thesis
    proof (cases "ms = []")
      case True
      then have "negamax board = PREV"
        by (subst negamax.simps) (simp add: miss(3))
      with True miss(4) upd[OF snd] show ?thesis
        by (auto simp: answer_def remember_def game_values_def PREV_def UNKNOWN_def)
    next
      case ne: False
      show ?thesis
      proof (cases "depth = 0")
        case True
        with ne miss(4) snd show ?thesis
          by (auto simp: answer_def remember_def game_values_def)
      next
        case False
        have "\<exists>v c'. value_loop (\<lambda>move. game_value move (depth - 1)) PREV ms cache = (Inr v, c')
                \<and> sound c' \<and> v \<in> game_values
                \<and> (v = NEXT \<longrightarrow> (\<exists>m\<in>set ms. negamax m = PREV))
                \<and> (v = PREV \<longrightarrow> PREV = PREV \<and> (\<forall>m\<in>set ms. negamax m = NEXT))"
        proof (intro value_loop_sound)
          fix m k assume mk: "m \<in> set ms" "sound k"
          have "wf_board m"
            using game_moves_wf[OF wf miss(3) mk(1)] by simp
          then show "answer m (game_value m (depth - 1) k)"
            using miss ne False mk by (intro "1.IH") auto
        qed (use snd in auto)
        then obtain v c' where
          l: "value_loop (\<lambda>move. game_value move (depth - 1)) PREV ms cache = (Inr v, c')"
          and c': "sound c'" and v: "v \<in> game_values"
          and n: "v = NEXT \<longrightarrow> (\<exists>m\<in>set ms. negamax m = PREV)"
          and p: "v = PREV \<longrightarrow> (\<forall>m\<in>set ms. negamax m = NEXT)"
          by auto
        have nm: "negamax board = (if list_ex (\<lambda>m. negamax m = PREV) ms then NEXT else PREV)"
          by (subst negamax.simps) (simp add: miss(3))
        have "v = negamax board" if "v \<noteq> UNKNOWN"
        proof -
          from v that consider "v = NEXT" | "v = PREV"
            by (auto simp: game_values_def)
          then show ?thesis
          proof cases
            case 1
            with n show ?thesis by (auto simp: nm list_ex_iff)
          next
            case 2
            with p have "\<not> list_ex (\<lambda>m. negamax m = PREV) ms"
              by (auto simp: list_ex_iff PREV_def NEXT_def)
            with 2 show ?thesis by (simp add: nm)
          qed
        qed
        with miss(4) ne False l c' v upd[OF c'] show ?thesis
          by (auto simp: answer_def remember_def)
      qed
    qed
  qed
qed

section \<open>Properties of the solver\<close>

text \<open>
  Claim C5.  A cache hit takes precedence over the depth budget and leaves the cache as
  it was: when the cache has an entry for the fingerprint of the board, \<open>game_value\<close>
  returns that entry, for every depth budget, and the cache it returns is the cache it
  was given.
\<close>

theorem cache_hit:
  assumes "game_hash board = Inr h" "cache h = Some v"
  shows "game_value board depth cache = (Inr v, cache)"
  using assms by (simp add: game_value.simps)

theorem cache_hit_witness:
  "game_hash (replicate 12 0) = Inr 0 \<and> [0 \<mapsto> NEXT] 0 = Some NEXT
   \<and> game_value (replicate 12 0) 0 [0 \<mapsto> NEXT] = (Inr NEXT, [0 \<mapsto> NEXT])"
proof -
  have h: "game_hash (replicate 12 0) = Inr 0"
    by (simp add: game_hash_def INDICES_def packed_def enumerate_eq_zip eval_nat_numeral)
  show ?thesis
    using cache_hit[of "replicate 12 0" 0 "[0 \<mapsto> NEXT]" NEXT 0] h by simp
qed

lemma populated_sound: "populated d c \<Longrightarrow> sound c"
proof (induction rule: populated.induct)
  case fresh
  show ?case by (rule sound_empty)
next
  case (call c b)
  then show ?case
    using game_value_sound[of b c d] by (auto simp: answer_def)
qed

text \<open>
  Claim C1.  Cache soundness across depth budgets: let the cache \<open>C\<close> be built from the
  empty cache by calls of \<open>game_value\<close> at the budget \<open>d1\<close>, and \<open>d1 \<le> d2\<close>.  On every board
  of the data model both \<open>game_value B d2 C\<close> and \<open>game_value B d2 {}\<close> return a value; each of
  the two values that is not \<open>UNKNOWN\<close> is the game-theoretic value \<open>negamax B\<close>, which no
  depth budget and no cache enters, so two values that are not \<open>UNKNOWN\<close> are the same; and
  every entry of the cache given and of the caches returned is the game-theoretic value
  of each board that has its fingerprint.
\<close>

theorem cache_sound_across_budgets:
  assumes "populated d1 C" "d1 \<le> d2" "wf_board B"
  shows "\<exists>v C' v' C''.
           game_value B d2 C = (Inr v, C') \<and> game_value B d2 Map.empty = (Inr v', C'')
         \<and> (v \<noteq> UNKNOWN \<longrightarrow> v = negamax B) \<and> (v' \<noteq> UNKNOWN \<longrightarrow> v' = negamax B)
         \<and> (v \<noteq> UNKNOWN \<longrightarrow> v' \<noteq> UNKNOWN \<longrightarrow> v = v')
         \<and> sound C \<and> sound C' \<and> sound C''"
proof -
  have c: "sound C"
    using assms(1) by (rule populated_sound)
  have "answer B (game_value B d2 C)"
    using assms(3) c by (rule game_value_sound)
  moreover have "answer B (game_value B d2 Map.empty)"
    using assms(3) sound_empty by (rule game_value_sound)
  ultimately show ?thesis
    using c
    by (cases "game_value B d2 C"; cases "game_value B d2 Map.empty") (auto simp: answer_def)
qed

theorem cache_sound_across_budgets_witness:
  "populated 2 (snd (game_value [1, 3, 3, 1, 3, 1, 0, 3, 1, 3, 3, 1] 2 Map.empty))
   \<and> (2::int) \<le> 3
   \<and> wf_board [1, 3, 3, 1, 3, 1, 0, 3, 1, 3, 3, 1]
   \<and> fst (game_value [1, 3, 3, 1, 3, 1, 0, 3, 1, 3, 3, 1] 2 Map.empty) = Inr UNKNOWN
   \<and> fst (game_value [1, 3, 3, 1, 3, 1, 0, 3, 1, 3, 3, 1] 3
             (snd (game_value [1, 3, 3, 1, 3, 1, 0, 3, 1, 3, 3, 1] 2 Map.empty))) = Inr NEXT
   \<and> fst (game_value [1, 3, 3, 1, 3, 1, 0, 3, 1, 3, 3, 1] 3 Map.empty) = Inr NEXT
   \<and> negamax [1, 3, 3, 1, 3, 1, 0, 3, 1, 3, 3, 1] = NEXT
   \<and> sound (snd (game_value [1, 3, 3, 1, 3, 1, 0, 3, 1, 3, 3, 1] 3
                 (snd (game_value [1, 3, 3, 1, 3, 1, 0, 3, 1, 3, 3, 1] 2 Map.empty))))
   \<and> populated 2 (snd (game_value [1, 3, 3, 1, 3, 1, 1, 3, 1, 3, 3, 1] 2 Map.empty))
   \<and> fst (game_value [1, 3, 3, 1, 3, 1, 0, 3, 1, 3, 3, 1] 2
             (snd (game_value [1, 3, 3, 1, 3, 1, 1, 3, 1, 3, 3, 1] 2 Map.empty))) = Inr NEXT
   \<and> sound (snd (game_value [1, 3, 3, 1, 3, 1, 0, 3, 1, 3, 3, 1] 2
                 (snd (game_value [1, 3, 3, 1, 3, 1, 1, 3, 1, 3, 3, 1] 2 Map.empty))))"
proof -
  let ?B = "[1, 3, 3, 1, 3, 1, 0, 3, 1, 3, 3, 1] :: board"
  let ?M = "[1, 3, 3, 1, 3, 1, 1, 3, 1, 3, 3, 1] :: board"
  let ?C0 = "snd (game_value ?B 2 Map.empty)"
  let ?C1 = "snd (game_value ?M 2 Map.empty)"
  have w: "wf_board ?B" and wm: "wf_board ?M"
    by (simp_all add: wf_board_def)
  have p0: "populated 2 ?C0"
    using w by (intro populated.call populated.fresh)
  have p1: "populated 2 ?C1"
    using wm by (intro populated.call populated.fresh)
  have cold2: "fst (game_value ?B 2 Map.empty) = Inr UNKNOWN"
    by code_simp
  have warm3: "fst (game_value ?B 3 ?C0) = Inr NEXT"
    by code_simp
  have cold3: "fst (game_value ?B 3 Map.empty) = Inr NEXT"
    by code_simp
  have warm2: "fst (game_value ?B 2 ?C1) = Inr NEXT"
    by code_simp
  have u: "NEXT \<noteq> UNKNOWN"
    by (simp add: NEXT_def UNKNOWN_def)
  from cache_sound_across_budgets[OF p0 _ w, of 3] warm3 u
  have a: "negamax ?B = NEXT" "sound (snd (game_value ?B 3 ?C0))"
    by auto
  from cache_sound_across_budgets[OF p1 _ w, of 2] warm2 u
  have b: "sound (snd (game_value ?B 2 ?C1))"
    by auto
  from p0 w cold2 warm3 cold3 a p1 warm2 b show ?thesis
    by (intro conjI) simp_all
qed

lemma wf_empty_board: "wf_board empty_board"
  by (simp add: empty_board_def wf_board_def list_all_iff)

lemma empty_board_list: "empty_board = [0, 0, 0, 0, 0, 0, 0, 0, 0, 0, 0, 0]"
  by (simp add: empty_board_def eval_nat_numeral)

lemma room_empty_board: "room empty_board = 36"
  using room_wf[OF wf_empty_board] by (simp add: empty_board_def sum_list_replicate)

lemma resolved_empty: "resolved Map.empty"
  by (simp add: resolved_def)

lemma value_loop_unknown:
  assumes "\<And>m. m \<in> set ms \<Longrightarrow> rec m c = (Inr UNKNOWN, c)" "val = PREV \<or> val = UNKNOWN"
  shows "value_loop rec val ms c = (Inr (if ms = [] then val else UNKNOWN), c)"
  using assms
  by (induction ms arbitrary: val) (auto simp: Let_def PREV_def UNKNOWN_def NEXT_def)

lemma game_value_depth0:
  assumes "12 \<le> length b" "\<not> game_over b" "i < 12" "b ! i < 3"
  shows "game_value b 0 Map.empty = (Inr UNKNOWN, Map.empty)"
proof -
  obtain h where h: "game_hash b = Inr h"
    using assms(1) by (simp add: game_hash_def)
  have "i \<in> set (filter (\<lambda>i. b ! i < 3) [0..<12])"
    using assms(3,4) by simp
  then have "filter (\<lambda>i. b ! i < 3) [0..<12] \<noteq> []"
    by (metis empty_iff empty_set)
  then show ?thesis
    using assms(2) by (simp add: game_value_miss[OF h _ game_moves_eq[OF assms(1)]] remember_def)
qed

lemma first_moves_open:
  "list_all (\<lambda>i. \<not> game_over (empty_board[i := empty_board ! i + 1])) [0..<12]"
  by code_simp

lemma empty_board_depth1:
  "game_value empty_board 1 Map.empty = (Inr UNKNOWN, Map.empty)"
proof -
  obtain h where h: "game_hash empty_board = Inr h"
    using wf_board_hash[OF wf_empty_board] by auto
  obtain ms where ms: "game_moves empty_board = Inr ms"
    using wf_board_moves[OF wf_empty_board] by auto
  have child: "game_value m 0 Map.empty = (Inr UNKNOWN, Map.empty)" if "m \<in> set ms" for m
  proof -
    from that ms obtain i where i: "i < 12" "m = empty_board[i := empty_board ! i + 1]"
      by (auto simp: game_moves_eq empty_board_def split: if_splits)
    have "\<not> game_over m"
      using first_moves_open i by (simp add: list_all_iff)
    moreover have "12 \<le> length m" "m ! i < 3"
      using i by (simp_all add: empty_board_def)
    ultimately show ?thesis
      using i(1) by (intro game_value_depth0[of m i]) auto
  qed
  have "\<not> game_over empty_board"
    unfolding empty_board_list game_over_def LINES_def won_def by simp
  with full_board_over[OF wf_empty_board] ms have ne: "ms \<noteq> []"
    by (auto simp: game_moves_eq empty_board_def split: if_splits)
  have "value_loop (\<lambda>move. game_value move (1 - 1)) PREV ms Map.empty
        = (Inr (if ms = [] then PREV else UNKNOWN), Map.empty)"
    using child by (intro value_loop_unknown) auto
  then show ?thesis
    using ne by (simp add: game_value_miss[OF h _ ms] remember_def)
qed

text \<open>
  Claim C3.  \<open>UNKNOWN\<close> is never cached: a cache that holds no \<open>UNKNOWN\<close> holds none after
  a call of \<open>game_value\<close>, for every board and depth budget; when it is a cache of game
  values, every entry it holds afterwards, so every entry the call added, is \<open>PREV\<close> or
  \<open>NEXT\<close>.  On the empty board with budget 1 and the empty cache the call returns
  \<open>UNKNOWN\<close> and the cache stays empty.
\<close>

theorem unknown_never_cached:
  assumes "UNKNOWN \<notin> ran cache"
  shows "UNKNOWN \<notin> ran (snd (game_value board depth cache))
       \<and> (ran cache \<subseteq> game_values \<longrightarrow> ran (snd (game_value board depth cache)) \<subseteq> {PREV, NEXT})
       \<and> game_value empty_board 1 Map.empty = (Inr UNKNOWN, Map.empty)"
proof -
  have "resolved (snd (game_value board depth cache))" if "ran cache \<subseteq> game_values"
  proof -
    from that assms have "resolved cache"
      by (auto simp: resolved_def game_values_def)
    then show ?thesis
      by (simp add: game_value_resolved)
  qed
  then show ?thesis
    using game_value_no_unknown[OF assms] empty_board_depth1 by (auto simp: resolved_def)
qed

theorem unknown_never_cached_witness:
  "UNKNOWN \<notin> ran (Map.empty :: cache)
   \<and> game_value empty_board 1 Map.empty = (Inr UNKNOWN, Map.empty)
   \<and> UNKNOWN \<notin> ran (snd (game_value empty_board 1 Map.empty))"
  using unknown_never_cached[of Map.empty empty_board 1] by simp

text \<open>
  Claim C6.  The exhaustive solve of the empty board: with depth budget 36 and the empty
  cache, \<open>game_value\<close> on the all-zero board returns \<open>PREV\<close> or \<open>NEXT\<close>, never \<open>UNKNOWN\<close>,
  and its recursion is never more than 36 calls deep.
\<close>

theorem empty_board_solved:
  "\<exists>v cache'. game_value empty_board 36 Map.empty = (Inr v, cache')
      \<and> (v = PREV \<or> v = NEXT) \<and> v \<noteq> UNKNOWN
      \<and> game_value_bounded 36 empty_board 36 Map.empty = Some (Inr v, cache')"
proof -
  have "decided (fst (game_value empty_board 36 Map.empty))"
    using wf_empty_board resolved_empty
    by (rule game_value_decided) (simp add: room_empty_board)
  then obtain v cache' where v: "game_value empty_board 36 Map.empty = (Inr v, cache')"
    and d: "v = PREV \<or> v = NEXT"
    unfolding decided_def by (cases "game_value empty_board 36 Map.empty") auto
  have "room empty_board \<le> 36"
    by (simp add: room_empty_board)
  then have "game_value_bounded 36 empty_board 36 Map.empty = Some (game_value empty_board 36 Map.empty)"
    by (rule game_value_bounded_eq)
  moreover from d have "v \<noteq> UNKNOWN"
    by (auto simp: PREV_def NEXT_def UNKNOWN_def)
  ultimately show ?thesis
    using v d by (intro exI[of _ v] exI[of _ cache']) (simp only: simp_thms)
qed

theorem empty_board_solved_witness:
  "fst (game_value empty_board 36 Map.empty) \<noteq> Inr UNKNOWN"
proof -
  from empty_board_solved obtain v cache' where
    "game_value empty_board 36 Map.empty = (Inr v, cache')" "v \<noteq> UNKNOWN"
    by blast
  then show ?thesis by simp
qed

text \<open>
  Claim C7.  Termination for every depth budget: on a board of 12 cells with values in
  \<open>{0, 1, 2, 3}\<close> the cell values sum to at most 36, every move is such a board again with
  a sum exactly one greater, and for every integer depth budget and every cache the call
  of \<open>game_value\<close> returns with a recursion depth of at most 36 minus the sum of the
  cells: cut off below that depth, it returns what the solver returns.
\<close>

theorem game_value_terminates:
  assumes "wf_board board"
  shows "sum_list board \<le> 36
       \<and> (\<forall>ms m. game_moves board = Inr ms \<longrightarrow> m \<in> set ms \<longrightarrow>
              wf_board m \<and> sum_list m = sum_list board + 1)
       \<and> (\<forall>n. 36 - sum_list board \<le> int n \<longrightarrow>
              game_value_bounded n board depth cache = Some (game_value board depth cache))"
proof -
  have "sum_list board \<le> 36"
    using room_wf[OF assms] by linarith
  moreover have "game_value_bounded n board depth cache = Some (game_value board depth cache)"
    if "36 - sum_list board \<le> int n" for n
    using that room_wf[OF assms] by (intro game_value_bounded_eq) linarith
  ultimately show ?thesis
    using game_moves_wf[OF assms] by blast
qed

theorem game_value_terminates_witness:
  "wf_board [2, 3, 2, 3, 3, 2, 3, 3, 3, 2, 3, 2]
   \<and> sum_list [2, 3, 2, 3, 3, 2, 3, 3, 3, 2, 3, 2] = (31::int)
   \<and> game_value_bounded 5 [2, 3, 2, 3, 3, 2, 3, 3, 3, 2, 3, 2] INFINITY Map.empty
       = Some (game_value [2, 3, 2, 3, 3, 2, 3, 3, 3, 2, 3, 2] INFINITY Map.empty)"
proof -
  have w: "wf_board [2, 3, 2, 3, 3, 2, 3, 3, 3, 2, 3, 2]"
    by (simp add: wf_board_def)
  have s: "sum_list [2, 3, 2, 3, 3, 2, 3, 3, 3, 2, 3, 2] = (31::int)"
    by simp
  then have "36 - sum_list [2, 3, 2, 3, 3, 2, 3, 3, 3, 2, 3, 2] \<le> int 5"
    by simp
  with game_value_terminates[OF w, of INFINITY Map.empty]
  have "game_value_bounded 5 [2, 3, 2, 3, 3, 2, 3, 3, 3, 2, 3, 2] INFINITY Map.empty
        = Some (game_value [2, 3, 2, 3, 3, 2, 3, 3, 3, 2, 3, 2] INFINITY Map.empty)"
    by blast
  with w s show ?thesis
    by blast
qed

section \<open>The move selector\<close>

lemma game_value_holds_game_values:
  assumes "holds_game_values c"
  shows "holds_game_values (snd (game_value b d c))
       \<and> (\<forall>v. fst (game_value b d c) = Inr v \<longrightarrow> v \<in> game_values)"
  using game_value_within[of game_values c b d] assms
  by (simp add: holds_game_values_def game_values_def)

lemma filter_eq_index: "i < n \<Longrightarrow> filter (\<lambda>k. k = i) [0..<n] = [i]"
  by (induction n) (auto simp: filter_empty_conv)

lemma changed_cell_successor:
  assumes "12 \<le> length B" "i < 12"
  shows "changed_cell B (B[i := B ! i + 1]) = Inr i"
proof -
  have "filter (\<lambda>k. B ! k \<noteq> (B[i := B ! i + 1]) ! k) [0..<12] = filter (\<lambda>k. k = i) [0..<12]"
    using assms by (intro filter_cong) (auto simp: nth_list_update)
  then show ?thesis
    using assms by (simp add: changed_cell_def filter_eq_index)
qed

lemma NAME_distinct: "distinct NAME \<and> length NAME = 16"
  by code_simp

lemma NAME_inject: "i < 12 \<Longrightarrow> j < 12 \<Longrightarrow> NAME ! i = NAME ! j \<longleftrightarrow> i = j"
  using NAME_distinct by (auto simp: nth_eq_iff_index_eq)

lemma game_values_distinct:
  "PREV \<noteq> NEXT" "PREV \<noteq> UNKNOWN" "NEXT \<noteq> UNKNOWN"
  by (simp_all add: PREV_def NEXT_def UNKNOWN_def)

lemma classify_step_result:
  assumes "12 \<le> length B" "i < 12" "holds_game_values (ai_cache (an_AI s))"
  shows "\<exists>s' v c'.
           classify_step B (B[i := B ! i + 1]) s = Inr s'
         \<and> game_value (B[i := B ! i + 1]) (ai_depth (an_AI s)) (ai_cache (an_AI s)) = (Inr v, c')
         \<and> an_AI s' = (an_AI s)\<lparr>ai_cache := c'\<rparr> \<and> holds_game_values c'
         \<and> an_W s' = (if v = PREV then an_W s @ [NAME ! i] else an_W s)
         \<and> an_L s' = (if v = NEXT then an_L s @ [NAME ! i] else an_L s)
         \<and> an_U s' = (if v = UNKNOWN then an_U s @ [NAME ! i] else an_U s)"
proof -
  let ?m = "B[i := B ! i + 1]"
  let ?r = "game_value ?m (ai_depth (an_AI s)) (ai_cache (an_AI s))"
  have "12 \<le> length ?m"
    using assms(1) by simp
  from game_value_no_error[OF this, of "ai_depth (an_AI s)" "ai_cache (an_AI s)"]
  obtain v c' where r: "?r = (Inr v, c')"
    by (cases ?r) auto
  with game_value_holds_game_values[OF assms(3), of ?m "ai_depth (an_AI s)"]
  have v: "v \<in> game_values" and c': "holds_game_values c'"
    by auto
  from v have "v \<noteq> PREV \<and> v \<noteq> NEXT \<longleftrightarrow> v = UNKNOWN"
    using game_values_distinct by (auto simp: game_values_def)
  then show ?thesis
    using r c' game_values_distinct
    by (auto simp: classify_step_def changed_cell_successor[OF assms(1,2)] Let_def)
qed

lemma classify_loop_append:
  "classify_loop B (xs @ ys) s =
     (case classify_loop B xs s of Inl e \<Rightarrow> Inl e | Inr s' \<Rightarrow> classify_loop B ys s')"
  by (induction xs arbitrary: s) (auto split: sum.splits)

lemma classify_loop_buckets:
  assumes "12 \<le> length B" "\<forall>i\<in>set js. i < 12" "holds_game_values (ai_cache (an_AI s))"
  shows "\<exists>s'. classify_loop B (map (\<lambda>i. B[i := B ! i + 1]) js) s = Inr s'
           \<and> holds_game_values (ai_cache (an_AI s')) \<and> ai_depth (an_AI s') = ai_depth (an_AI s)
           \<and> set (an_W s) \<subseteq> set (an_W s') \<and> set (an_W s') \<subseteq> set (an_W s) \<union> names js
           \<and> set (an_L s) \<subseteq> set (an_L s') \<and> set (an_L s') \<subseteq> set (an_L s) \<union> names js
           \<and> set (an_U s) \<subseteq> set (an_U s') \<and> set (an_U s') \<subseteq> set (an_U s) \<union> names js"
  using assms(2,3)
proof (induction js arbitrary: s)
  case Nil
  then show ?case by (simp add: names_def)
next
  case (Cons i js)
  from Cons.prems have i: "i < 12" by simp
  from classify_step_result[OF assms(1) i Cons.prems(2)]
  obtain t v c' where t: "classify_step B (B[i := B ! i + 1]) s = Inr t"
    "an_AI t = (an_AI s)\<lparr>ai_cache := c'\<rparr>" "holds_game_values c'"
    "an_W t = (if v = PREV then an_W s @ [NAME ! i] else an_W s)"
    "an_L t = (if v = NEXT then an_L s @ [NAME ! i] else an_L s)"
    "an_U t = (if v = UNKNOWN then an_U s @ [NAME ! i] else an_U s)"
    by blast
  have "holds_game_values (ai_cache (an_AI t))"
    using t(2,3) by simp
  from Cons.IH[OF _ this] Cons.prems(1)
  obtain s' where s': "classify_loop B (map (\<lambda>i. B[i := B ! i + 1]) js) t = Inr s'"
    "holds_game_values (ai_cache (an_AI s'))" "ai_depth (an_AI s') = ai_depth (an_AI t)"
    "set (an_W t) \<subseteq> set (an_W s')" "set (an_W s') \<subseteq> set (an_W t) \<union> names js"
    "set (an_L t) \<subseteq> set (an_L s')" "set (an_L s') \<subseteq> set (an_L t) \<union> names js"
    "set (an_U t) \<subseteq> set (an_U s')" "set (an_U s') \<subseteq> set (an_U t) \<union> names js"
    by auto
  have n: "names (i # js) = insert (NAME ! i) (names js)"
    by (simp add: names_def)
  have w: "set (an_W s) \<subseteq> set (an_W t)" "set (an_W t) \<subseteq> insert (NAME ! i) (set (an_W s))"
    and l: "set (an_L s) \<subseteq> set (an_L t)" "set (an_L t) \<subseteq> insert (NAME ! i) (set (an_L s))"
    and u: "set (an_U s) \<subseteq> set (an_U t)" "set (an_U t) \<subseteq> insert (NAME ! i) (set (an_U s))"
    using t(4,5,6) by auto
  have "classify_loop B (map (\<lambda>i. B[i := B ! i + 1]) (i # js)) s = Inr s'"
    using t(1) s'(1) by simp
  moreover have "ai_depth (an_AI s') = ai_depth (an_AI s)"
    using s'(3) t(2) by simp
  ultimately show ?case
    using s'(2,4-9) w l u unfolding n by blast
qed

lemma names_notin:
  assumes "i < 12" "\<forall>k\<in>set js. k < 12" "i \<notin> set js"
  shows "NAME ! i \<notin> names js"
  using assms NAME_inject[of i] by (auto simp: names_def)

text \<open>
  Claim C8.  The move selector classifies a move by the value of \<open>game_value\<close> on the
  position it leads to.  For a board \<open>B\<close> of the data model, an assistant whose cache holds
  game values, and the \<open>j\<close>-th move \<open>M\<close> of \<open>game_moves B\<close>: the loop returns an analysis; \<open>v\<close>
  being the value \<open>game_value\<close> returns on \<open>M\<close> with the assistant's depth and the cache as it
  is when the loop reaches \<open>M\<close>, the name of the cell that \<open>M\<close> changes is in the bucket \<open>W\<close>
  exactly when \<open>v = PREV\<close>, in \<open>L\<close> exactly when \<open>v = NEXT\<close>, and in \<open>U\<close> exactly when \<open>v = UNKNOWN\<close>.
\<close>

theorem move_classification:
  assumes "wf_board B" "game_moves B = Inr ms" "j < length ms" "holds_game_values (ai_cache AI)"
  shows "\<exists>sj s cell v c'.
           classify_loop B (take j ms) (analysis_start AI) = Inr sj
         \<and> move_classify B AI = Inr s
         \<and> changed_cell B (ms ! j) = Inr cell
         \<and> game_value (ms ! j) (ai_depth AI) (ai_cache (an_AI sj)) = (Inr v, c')
         \<and> (NAME ! cell \<in> set (an_W s) \<longleftrightarrow> v = PREV)
         \<and> (NAME ! cell \<in> set (an_L s) \<longleftrightarrow> v = NEXT)
         \<and> (NAME ! cell \<in> set (an_U s) \<longleftrightarrow> v = UNKNOWN)"
proof -
  define js where "js = filter (\<lambda>i. B ! i < 3) [0..<12]"
  define mv where "mv = (\<lambda>i. B[i := B ! i + 1])"
  have len: "12 \<le> length B"
    using assms(1) by (simp add: wf_board_def)
  have ms: "ms = map mv js"
    using assms(2,3) unfolding game_moves_eq[OF len] js_def mv_def
    by (auto split: if_splits)
  have js: "distinct js" "\<forall>i\<in>set js. i < 12"
    by (auto simp: js_def)
  have j: "j < length js"
    using assms(3) by (simp add: ms)
  define i where "i = js ! j"
  have i: "i < 12" "i \<in> set js"
    using js(2) j by (auto simp: i_def)
  have split: "js = take j js @ i # drop (Suc j) js"
    unfolding i_def using j by (rule id_take_nth_drop)
  have before: "\<forall>k\<in>set (take j js). k < 12" and after: "\<forall>k\<in>set (drop (Suc j) js). k < 12"
    using js(2) by (auto dest: in_set_takeD in_set_dropD)
  have "distinct (take j js @ i # drop (Suc j) js)"
    using js(1) split by simp
  then have fresh: "i \<notin> set (take j js)" "i \<notin> set (drop (Suc j) js)"
    by auto
  note n1 = names_notin[OF i(1) before fresh(1)] and n2 = names_notin[OF i(1) after fresh(2)]
  let ?s0 = "analysis_start AI"
  have s0: "holds_game_values (ai_cache (an_AI ?s0))" "an_W ?s0 = []" "an_L ?s0 = []" "an_U ?s0 = []"
    "ai_depth (an_AI ?s0) = ai_depth AI"
    using assms(4) by (simp_all add: analysis_start_def)
  from classify_loop_buckets[OF len before s0(1)]
  obtain sj where sj: "classify_loop B (map mv (take j js)) ?s0 = Inr sj"
    "holds_game_values (ai_cache (an_AI sj))" "ai_depth (an_AI sj) = ai_depth AI"
    "set (an_W sj) \<subseteq> names (take j js)" "set (an_L sj) \<subseteq> names (take j js)"
    "set (an_U sj) \<subseteq> names (take j js)"
    unfolding mv_def s0 by auto
  from classify_step_result[OF len i(1) sj(2)]
  obtain t v c' where t: "classify_step B (mv i) sj = Inr t"
    "game_value (mv i) (ai_depth AI) (ai_cache (an_AI sj)) = (Inr v, c')"
    "an_AI t = (an_AI sj)\<lparr>ai_cache := c'\<rparr>" "holds_game_values c'"
    "an_W t = (if v = PREV then an_W sj @ [NAME ! i] else an_W sj)"
    "an_L t = (if v = NEXT then an_L sj @ [NAME ! i] else an_L sj)"
    "an_U t = (if v = UNKNOWN then an_U sj @ [NAME ! i] else an_U sj)"
    unfolding mv_def sj(3) by blast
  have "holds_game_values (ai_cache (an_AI t))"
    using t(3,4) by simp
  from classify_loop_buckets[OF len after this]
  obtain s where s: "classify_loop B (map mv (drop (Suc j) js)) t = Inr s"
    "set (an_W t) \<subseteq> set (an_W s)" "set (an_W s) \<subseteq> set (an_W t) \<union> names (drop (Suc j) js)"
    "set (an_L t) \<subseteq> set (an_L s)" "set (an_L s) \<subseteq> set (an_L t) \<union> names (drop (Suc j) js)"
    "set (an_U t) \<subseteq> set (an_U s)" "set (an_U s) \<subseteq> set (an_U t) \<union> names (drop (Suc j) js)"
    unfolding mv_def by auto
  have "ms = map mv (take j js) @ mv i # map mv (drop (Suc j) js)"
    unfolding ms by (subst split) simp
  then have "classify_loop B ms ?s0 = Inr s"
    using sj(1) t(1) s(1) by (simp add: classify_loop_append)
  then have whole: "move_classify B AI = Inr s"
    by (simp add: move_classify_def assms(2))
  have pre: "classify_loop B (take j ms) ?s0 = Inr sj"
    using sj(1) by (simp add: ms take_map)
  have mj: "ms ! j = mv i"
    using j by (simp add: ms i_def)
  have cell: "changed_cell B (ms ! j) = Inr i"
    unfolding mj mv_def using len i(1) by (rule changed_cell_successor)
  have W: "NAME ! i \<in> set (an_W s) \<longleftrightarrow> v = PREV"
    using n1 n2 sj(4) s(2,3) t(5) by (auto split: if_splits)
  have L: "NAME ! i \<in> set (an_L s) \<longleftrightarrow> v = NEXT"
    using n1 n2 sj(5) s(4,5) t(6) by (auto split: if_splits)
  have U: "NAME ! i \<in> set (an_U s) \<longleftrightarrow> v = UNKNOWN"
    using n1 n2 sj(6) s(6,7) t(7) by (auto split: if_splits)
  show ?thesis
    using pre whole cell t(2) W L U unfolding mj by blast
qed

theorem move_classification_witness:
  "wf_board [2, 3, 2, 3, 3, 2, 3, 3, 3, 2, 3, 2]
   \<and> game_moves [2, 3, 2, 3, 3, 2, 3, 3, 3, 2, 3, 2] = Inr [[3, 3, 2, 3, 3, 2, 3, 3, 3, 2, 3, 2], [2, 3, 3, 3, 3, 2, 3, 3, 3, 2, 3, 2],
       [2, 3, 2, 3, 3, 3, 3, 3, 3, 2, 3, 2], [2, 3, 2, 3, 3, 2, 3, 3, 3, 3, 3, 2],
       [2, 3, 2, 3, 3, 2, 3, 3, 3, 2, 3, 3]]
   \<and> 4 < length [[3, 3, 2, 3, 3, 2, 3, 3, 3, 2, 3, 2], [2, 3, 3, 3, 3, 2, 3, 3, 3, 2, 3, 2],
       [2, 3, 2, 3, 3, 3, 3, 3, 3, 2, 3, 2], [2, 3, 2, 3, 3, 2, 3, 3, 3, 3, 3, 2],
       [2, 3, 2, 3, 3, 2, 3, 3, 3, 2, 3, 3]]
   \<and> holds_game_values (ai_cache \<lparr>ai_player = ''computer'', ai_depth = 3, ai_cache = Map.empty\<rparr>)
   \<and> (\<exists>sj s cell v c'.
           classify_loop [2, 3, 2, 3, 3, 2, 3, 3, 3, 2, 3, 2] (take 4 [[3, 3, 2, 3, 3, 2, 3, 3, 3, 2, 3, 2], [2, 3, 3, 3, 3, 2, 3, 3, 3, 2, 3, 2],
       [2, 3, 2, 3, 3, 3, 3, 3, 3, 2, 3, 2], [2, 3, 2, 3, 3, 2, 3, 3, 3, 3, 3, 2],
       [2, 3, 2, 3, 3, 2, 3, 3, 3, 2, 3, 3]]) (analysis_start \<lparr>ai_player = ''computer'', ai_depth = 3, ai_cache = Map.empty\<rparr>) = Inr sj
         \<and> move_classify [2, 3, 2, 3, 3, 2, 3, 3, 3, 2, 3, 2] \<lparr>ai_player = ''computer'', ai_depth = 3, ai_cache = Map.empty\<rparr> = Inr s
         \<and> changed_cell [2, 3, 2, 3, 3, 2, 3, 3, 3, 2, 3, 2] ([[3, 3, 2, 3, 3, 2, 3, 3, 3, 2, 3, 2], [2, 3, 3, 3, 3, 2, 3, 3, 3, 2, 3, 2],
       [2, 3, 2, 3, 3, 3, 3, 3, 3, 2, 3, 2], [2, 3, 2, 3, 3, 2, 3, 3, 3, 3, 3, 2],
       [2, 3, 2, 3, 3, 2, 3, 3, 3, 2, 3, 3]] ! 4) = Inr cell
         \<and> game_value ([[3, 3, 2, 3, 3, 2, 3, 3, 3, 2, 3, 2], [2, 3, 3, 3, 3, 2, 3, 3, 3, 2, 3, 2],
       [2, 3, 2, 3, 3, 3, 3, 3, 3, 2, 3, 2], [2, 3, 2, 3, 3, 2, 3, 3, 3, 3, 3, 2],
       [2, 3, 2, 3, 3, 2, 3, 3, 3, 2, 3, 3]] ! 4) (ai_depth \<lparr>ai_player = ''computer'', ai_depth = 3, ai_cache = Map.empty\<rparr>) (ai_cache (an_AI sj)) = (Inr v, c')
         \<and> (NAME ! cell \<in> set (an_W s) \<longleftrightarrow> v = PREV)
         \<and> (NAME ! cell \<in> set (an_L s) \<longleftrightarrow> v = NEXT)
         \<and> (NAME ! cell \<in> set (an_U s) \<longleftrightarrow> v = UNKNOWN))"
proof -
  have w: "wf_board [2, 3, 2, 3, 3, 2, 3, 3, 3, 2, 3, 2]"
    by (simp add: wf_board_def)
  have f: "filter (\<lambda>i. [2, 3, 2, 3, 3, 2, 3, 3, 3, 2, 3, 2] ! i < (3::int)) [0..<12] = [0, 2, 5, 9, 11]"
    by (simp add: upt_conv_Cons)
  have m: "game_moves [2, 3, 2, 3, 3, 2, 3, 3, 3, 2, 3, 2] = Inr [[3, 3, 2, 3, 3, 2, 3, 3, 3, 2, 3, 2], [2, 3, 3, 3, 3, 2, 3, 3, 3, 2, 3, 2],
       [2, 3, 2, 3, 3, 3, 3, 3, 3, 2, 3, 2], [2, 3, 2, 3, 3, 2, 3, 3, 3, 3, 3, 2],
       [2, 3, 2, 3, 3, 2, 3, 3, 3, 2, 3, 3]]"
    by (simp add: game_moves_eq game_over_def LINES_def won_def f)
  have j: "4 < length [[3, 3, 2, 3, 3, 2, 3, 3, 3, 2, 3, 2], [2, 3, 3, 3, 3, 2, 3, 3, 3, 2, 3, 2],
       [2, 3, 2, 3, 3, 3, 3, 3, 3, 2, 3, 2], [2, 3, 2, 3, 3, 2, 3, 3, 3, 3, 3, 2],
       [2, 3, 2, 3, 3, 2, 3, 3, 3, 2, 3, 3]]"
    by simp
  have c: "holds_game_values (ai_cache \<lparr>ai_player = ''computer'', ai_depth = 3, ai_cache = Map.empty\<rparr>)"
    by (simp add: holds_game_values_def)
  from move_classification[OF w m j c]
  have "(\<exists>sj s cell v c'.
           classify_loop [2, 3, 2, 3, 3, 2, 3, 3, 3, 2, 3, 2] (take 4 [[3, 3, 2, 3, 3, 2, 3, 3, 3, 2, 3, 2], [2, 3, 3, 3, 3, 2, 3, 3, 3, 2, 3, 2],
       [2, 3, 2, 3, 3, 3, 3, 3, 3, 2, 3, 2], [2, 3, 2, 3, 3, 2, 3, 3, 3, 3, 3, 2],
       [2, 3, 2, 3, 3, 2, 3, 3, 3, 2, 3, 3]]) (analysis_start \<lparr>ai_player = ''computer'', ai_depth = 3, ai_cache = Map.empty\<rparr>) = Inr sj
         \<and> move_classify [2, 3, 2, 3, 3, 2, 3, 3, 3, 2, 3, 2] \<lparr>ai_player = ''computer'', ai_depth = 3, ai_cache = Map.empty\<rparr> = Inr s
         \<and> changed_cell [2, 3, 2, 3, 3, 2, 3, 3, 3, 2, 3, 2] ([[3, 3, 2, 3, 3, 2, 3, 3, 3, 2, 3, 2], [2, 3, 3, 3, 3, 2, 3, 3, 3, 2, 3, 2],
       [2, 3, 2, 3, 3, 3, 3, 3, 3, 2, 3, 2], [2, 3, 2, 3, 3, 2, 3, 3, 3, 3, 3, 2],
       [2, 3, 2, 3, 3, 2, 3, 3, 3, 2, 3, 3]] ! 4) = Inr cell
         \<and> game_value ([[3, 3, 2, 3, 3, 2, 3, 3, 3, 2, 3, 2], [2, 3, 3, 3, 3, 2, 3, 3, 3, 2, 3, 2],
       [2, 3, 2, 3, 3, 3, 3, 3, 3, 2, 3, 2], [2, 3, 2, 3, 3, 2, 3, 3, 3, 3, 3, 2],
       [2, 3, 2, 3, 3, 2, 3, 3, 3, 2, 3, 3]] ! 4) (ai_depth \<lparr>ai_player = ''computer'', ai_depth = 3, ai_cache = Map.empty\<rparr>) (ai_cache (an_AI sj)) = (Inr v, c')
         \<and> (NAME ! cell \<in> set (an_W s) \<longleftrightarrow> v = PREV)
         \<and> (NAME ! cell \<in> set (an_L s) \<longleftrightarrow> v = NEXT)
         \<and> (NAME ! cell \<in> set (an_U s) \<longleftrightarrow> v = UNKNOWN))" .
  with w m j c show ?thesis
    by (intro conjI)
qed

section \<open>The lines\<close>

text \<open>
  Claim C9, as amended.  \<open>LINES\<close> holds exactly 14 distinct triples: the two windows of
  each of the 3 rows, the 4 columns, and the 4 diagonals that pass through the three rows
  (two in each direction), in this order.
\<close>

theorem LINES_composition:
  "length LINES = 14 \<and> distinct LINES
   \<and> LINES = row_windows @ column_lines @ diagonal_lines
   \<and> length row_windows = 3 * 2 \<and> length column_lines = 4 \<and> length diagonal_lines = 2 * 2
   \<and> filter in_row LINES = row_windows
   \<and> filter in_column LINES = column_lines
   \<and> filter on_diagonal LINES = diagonal_lines"
  by code_simp

text \<open>
  Claim C9 as stated fails: \<open>LINES\<close> has four diagonal triples, not two, and six triples
  within a row, not three for each row.
\<close>

theorem LINES_composition_counterexample:
  "length (filter on_diagonal LINES) \<noteq> 2 \<and> length (filter in_row LINES) \<noteq> 3 * 3"
  by code_simp

section \<open>Further properties of the specification\<close>

lemma populated_resolved: "populated d c \<Longrightarrow> resolved c"
proof (induction rule: populated.induct)
  case fresh
  show ?case by (simp add: resolved_def)
next
  case (call c b)
  then show ?case by (simp add: game_value_resolved)
qed

text \<open>
  An exhaustive solve is exact: with a depth budget of at least 36 (or a negative one,
  which never reaches zero) and a cache that calls of the solver have built, \<open>game_value\<close>
  returns the game-theoretic value of the board.
\<close>

theorem exhaustive_solve_exact:
  assumes "wf_board B" "populated d0 C" "d < 0 \<or> 36 \<le> d"
  shows "fst (game_value B d C) = Inr (negamax B)"
proof -
  have "int (room B) \<le> 36"
    using room_wf[OF assms(1)] assms(1)
    by (simp add: wf_board_def list_all_iff sum_list_nonneg)
  with assms(3) have "d < 0 \<or> int (room B) \<le> d"
    by auto
  with assms(1) populated_resolved[OF assms(2)]
  have "decided (fst (game_value B d C))"
    by (rule game_value_decided)
  moreover have "answer B (game_value B d C)"
    using assms(1) populated_sound[OF assms(2)] by (rule game_value_sound)
  ultimately show ?thesis
    by (auto simp: decided_def answer_def PREV_def NEXT_def UNKNOWN_def)
qed

theorem exhaustive_solve_exact_witness:
  "wf_board [1, 1, 1, 0, 0, 0, 0, 0, 0, 0, 0, 0] \<and> populated 0 Map.empty \<and> (36::int) \<le> INFINITY
   \<and> fst (game_value [1, 1, 1, 0, 0, 0, 0, 0, 0, 0, 0, 0] INFINITY Map.empty)
       = Inr (negamax [1, 1, 1, 0, 0, 0, 0, 0, 0, 0, 0, 0])"
proof -
  have w: "wf_board [1, 1, 1, 0, 0, 0, 0, 0, 0, 0, 0, 0]"
    by (simp add: wf_board_def)
  have p: "populated 0 Map.empty"
    by (rule populated.fresh)
  have d: "(36::int) \<le> INFINITY"
    by (simp add: INFINITY_def)
  from exhaustive_solve_exact[OF w p disjI2[OF d]] w p d show ?thesis
    by (intro conjI)
qed

text \<open>
  The solver signals no failure: on a board of the data model with a cache of game
  values it returns one of the three game values, and the cache stays one of game values.
\<close>

theorem game_value_total:
  assumes "wf_board B" "holds_game_values C"
  shows "\<exists>v C'. game_value B d C = (Inr v, C') \<and> (v = PREV \<or> v = NEXT \<or> v = UNKNOWN)
                 \<and> holds_game_values C'"
proof -
  have "12 \<le> length B"
    using assms(1) by (simp add: wf_board_def)
  from game_value_no_error[OF this, of d C] obtain v C' where r: "game_value B d C = (Inr v, C')"
    by (cases "game_value B d C") auto
  with game_value_holds_game_values[OF assms(2), of B d] show ?thesis
    by (auto simp: game_values_def)
qed

theorem game_value_total_witness:
  "wf_board empty_board \<and> holds_game_values Map.empty
   \<and> (\<exists>v C'. game_value empty_board 3 Map.empty = (Inr v, C') \<and> (v = PREV \<or> v = NEXT \<or> v = UNKNOWN)
                 \<and> holds_game_values C')"
proof -
  have c: "holds_game_values Map.empty"
    by (simp add: holds_game_values_def)
  from game_value_total[OF wf_empty_board c, of 3] wf_empty_board c show ?thesis
    by (intro conjI)
qed

text \<open>
  The four tables of \<open>INDICES\<close> are the identity, the rotation by 180 degrees
  (\<open>(r, c)\<close> to \<open>(2 - r, 3 - c)\<close>), the reflection that swaps the top and bottom rows and the
  reflection that reverses each row, on the cells \<open>4 * r + c\<close>.
\<close>

theorem INDICES_geometry:
  "INDICES = [map (\<lambda>i. i) [0..<12], map (\<lambda>i. 11 - i) [0..<12],
              map (\<lambda>i. 4 * (2 - i div 4) + i mod 4) [0..<12],
              map (\<lambda>i. 4 * (i div 4) + (3 - i mod 4)) [0..<12]]"
  by (simp add: INDICES_def upt_rec)

lemma won_update:
  assumes "length B = 12" "(x, y, z) \<in> set LINES" "k \<in> {x, y, z}" "\<forall>c\<in>{x, y, z} - {k}. B ! c = 3"
  shows "won (B[k := 3]) (x, y, z)"
proof -
  have "x < 12" "y < 12" "z < 12" "x \<noteq> y" "y \<noteq> z" "x \<noteq> z"
    using assms(2) by (auto simp: LINES_def)
  then show ?thesis
    using assms(1,3,4) by (auto simp: won_def nth_list_update)
qed

text \<open>
  The immediate win: on a board that is not over, with two cells of a line at 3 and the
  third at 2, the move that raises the third cell to 3 is among the moves, and the solver,
  with a sound cache, values the position it leads to as \<open>PREV\<close>, whatever the budget.
\<close>

theorem immediate_win:
  assumes "wf_board B" "\<not> game_over B" "(x, y, z) \<in> set LINES" "k \<in> {x, y, z}"
    and "\<forall>c\<in>{x, y, z} - {k}. B ! c = 3" "B ! k = 2" "sound C"
  shows "\<exists>ms. game_moves B = Inr ms \<and> B[k := 3] \<in> set ms
             \<and> fst (game_value (B[k := 3]) d C) = Inr PREV"
proof -
  have len: "length B = 12"
    using assms(1) by (simp add: wf_board_def)
  have k: "k < 12"
    using assms(3,4) by (auto simp: LINES_def)
  let ?ms = "map (\<lambda>i. B[i := B ! i + 1]) (filter (\<lambda>i. B ! i < 3) [0..<12])"
  have ms: "game_moves B = Inr ?ms"
    using assms(2) len by (simp add: game_moves_eq)
  have "k \<in> set (filter (\<lambda>i. B ! i < 3) [0..<12])"
    using k assms(6) by simp
  then have "(\<lambda>i. B[i := B ! i + 1]) k \<in> set ?ms"
    unfolding set_map by (rule imageI)
  then have m: "B[k := 3] \<in> set ?ms"
    by (simp add: assms(6))
  then have wm: "wf_board (B[k := 3])"
    using game_moves_wf[OF assms(1) ms] by blast
  have "game_over (B[k := 3])"
    using won_update[OF len assms(3,4,5)] assms(3)
    by (auto simp: game_over_def list_ex_iff)
  then have "game_moves (B[k := 3]) = Inr []"
    using len by (simp add: game_moves_eq)
  then have "negamax (B[k := 3]) = PREV"
    by (subst negamax.simps) simp
  moreover have "answer (B[k := 3]) (game_value (B[k := 3]) d C)"
    using wm assms(7) by (rule game_value_sound)
  moreover have "fst (game_value (B[k := 3]) d C) \<noteq> Inr UNKNOWN"
  proof (cases "B[k := 3]" d C rule: game_value_cases)
    case (error e)
    with wf_board_hash[OF wm] show ?thesis by simp
  next
    case (hit h v)
    with wm assms(7) have "v = negamax (B[k := 3])"
      by (auto simp: sound_def)
    with hit \<open>negamax (B[k := 3]) = PREV\<close> show ?thesis
      by (simp add: PREV_def UNKNOWN_def)
  next
    case (moves_error h e)
    with \<open>game_moves (B[k := 3]) = Inr []\<close> show ?thesis by simp
  next
    case (miss h ms)
    with \<open>game_moves (B[k := 3]) = Inr []\<close> show ?thesis
      by (simp add: fst_remember PREV_def UNKNOWN_def)
  qed
  ultimately have "fst (game_value (B[k := 3]) d C) = Inr PREV"
    by (auto simp: answer_def)
  with ms m show ?thesis by blast
qed

text \<open>
  The finite game bound: a sequence of legal moves from a board of the data model is no
  longer than 36 minus the sum of its cells; from the empty board, no longer than 36.
\<close>

theorem finite_game:
  assumes "wf_board b" "legal_play b ps"
  shows "int (length ps) \<le> 36 - sum_list b"
  using assms
proof (induction ps arbitrary: b)
  case Nil
  then show ?case using room_wf[of b] by simp
next
  case (Cons m ps)
  from Cons.prems(2) obtain xs where xs: "game_moves b = Inr xs" "m \<in> set xs" "legal_play m ps"
    by (auto split: sum.splits)
  from game_moves_wf[OF Cons.prems(1) xs(1,2)] have m: "wf_board m" "sum_list m = sum_list b + 1"
    by simp_all
  from Cons.IH[OF m(1) xs(3)] m(2) show ?case by simp
qed

theorem immediate_win_witness:
  "wf_board [3, 3, 2, 0, 0, 0, 0, 0, 0, 0, 0, 0] \<and> \<not> game_over [3, 3, 2, 0, 0, 0, 0, 0, 0, 0, 0, 0]
   \<and> (0, 1, 2) \<in> set LINES \<and> sound Map.empty
   \<and> (\<exists>ms. game_moves [3, 3, 2, 0, 0, 0, 0, 0, 0, 0, 0, 0] = Inr ms
             \<and> [3, 3, 3, 0, 0, 0, 0, 0, 0, 0, 0, 0] \<in> set ms
             \<and> fst (game_value [3, 3, 3, 0, 0, 0, 0, 0, 0, 0, 0, 0] 0 Map.empty) = Inr PREV)"
proof -
  have w: "wf_board [3, 3, 2, 0, 0, 0, 0, 0, 0, 0, 0, 0]"
    by (simp add: wf_board_def)
  have o: "\<not> game_over [3, 3, 2, 0, 0, 0, 0, 0, 0, 0, 0, 0]"
    by (simp add: game_over_def LINES_def won_def)
  have l: "(0, 1, 2) \<in> set LINES"
    by (simp add: LINES_def)
  have k: "(2::nat) \<in> {0, 1, 2}"
    by simp
  have c: "\<forall>c\<in>{0, 1, 2} - {2::nat}. [3, 3, 2, 0, 0, 0, 0, 0, 0, 0, 0, 0] ! c = (3::int)"
    by auto
  have t: "[3, 3, 2, 0, 0, 0, 0, 0, 0, 0, 0, 0] ! 2 = (2::int)"
    by simp
  from immediate_win[OF w o l k c t sound_empty, of 0]
  have "\<exists>ms. game_moves [3, 3, 2, 0, 0, 0, 0, 0, 0, 0, 0, 0] = Inr ms
             \<and> [3, 3, 3, 0, 0, 0, 0, 0, 0, 0, 0, 0] \<in> set ms
             \<and> fst (game_value [3, 3, 3, 0, 0, 0, 0, 0, 0, 0, 0, 0] 0 Map.empty) = Inr PREV"
    by simp
  with w o l sound_empty show ?thesis
    by (intro conjI)
qed

theorem finite_game_witness:
  "wf_board empty_board \<and> legal_play empty_board [[1, 0, 0, 0, 0, 0, 0, 0, 0, 0, 0, 0]]
   \<and> int (length [[1, 0, 0, 0, 0, 0, 0, 0, 0, 0, 0, 0 :: int]]) \<le> 36 - sum_list empty_board"
proof -
  have "\<not> game_over empty_board"
    unfolding empty_board_list game_over_def LINES_def won_def by simp
  then have "game_moves empty_board = Inr (map (\<lambda>i. empty_board[i := empty_board ! i + 1])
                                            (filter (\<lambda>i. empty_board ! i < 3) [0..<12]))"
    by (simp add: game_moves_eq empty_board_def)
  moreover have "(\<lambda>i. empty_board[i := empty_board ! i + 1]) 0
                 \<in> set (map (\<lambda>i. empty_board[i := empty_board ! i + 1])
                          (filter (\<lambda>i. empty_board ! i < 3) [0..<12]))"
    unfolding set_map by (rule imageI) (simp add: empty_board_def)
  moreover have "(\<lambda>i. empty_board[i := empty_board ! i + 1]) 0 = [1, 0, 0, 0, 0, 0, 0, 0, 0, 0, 0, 0]"
    by (simp add: empty_board_list)
  ultimately have p: "legal_play empty_board [[1, 0, 0, 0, 0, 0, 0, 0, 0, 0, 0, 0]]"
    by simp
  from finite_game[OF wf_empty_board p] wf_empty_board p show ?thesis
    by (intro conjI)
qed

end
